theory Spec2Isabelle
  imports Main "HOL-Library.Word"
begin

unbundle bit_operations_syntax

section \<open>Constants and hash chunks\<close>

text \<open>
  The tree of \<^verbatim>\<open>src/util/HighsHashTree.h\<close> is keyed by 6-bit chunks of a 64-bit hash.
  Keys are of a linearly ordered type \<open>'k\<close>; the hash function
  \<^verbatim>\<open>HighsHashHelpers::hash\<close> lives in \<^verbatim>\<open>util/HighsHash.h\<close>, which is not part of
  the sources at hand, so every operation that calls it takes it as the parameter \<open>hf\<close>.
  Positions and chunk values (\<^verbatim>\<open>int\<close>, \<^verbatim>\<open>uint8_t\<close> in the source) are natural numbers.
\<close>

type_synonym u64 = "64 word"

definition kBitsPerLevel :: nat where
  "kBitsPerLevel = 6"

definition kBranchFactor :: nat where
  "kBranchFactor = 2 ^ kBitsPerLevel"

definition kMaxDepth :: nat where
  "kMaxDepth = (64 + (kBitsPerLevel - 1)) div kBitsPerLevel"

definition kMinLeafSize :: nat where
  "kMinLeafSize = 6"

definition kLeafBurstThreshold :: nat where
  "kLeafBurstThreshold = 30"

text \<open>
  \<^verbatim>\<open>get_hash_chunk\<close>: \<^verbatim>\<open>(hash >> (pos * kBitsPerLevel)) & (kBranchFactor - 1)\<close>.
  A shift by 64 or more is undefined in the source; the recursive tree operations below
  refuse positions \<open>\<ge> kMaxDepth\<close> before they ask for a chunk.
\<close>

definition get_hash_chunk :: "u64 \<Rightarrow> nat \<Rightarrow> nat" where
  "get_hash_chunk hash pos = unat (drop_bit (pos * kBitsPerLevel) hash AND 63)"

section \<open>Occupation masks\<close>

text \<open>
  Modelled from the spec: \<^verbatim>\<open>HighsHashHelpers::popcnt\<close> (in the absent
  \<^verbatim>\<open>util/HighsHash.h\<close>) is the population count of a 64-bit word.
\<close>

definition popcnt :: "u64 \<Rightarrow> nat" where
  "popcnt w = length (filter (bit w) [0..<64])"

text \<open>
  Modelled from the spec: \<^verbatim>\<open>HighsHashHelpers::log2i\<close> (in the absent
  \<^verbatim>\<open>util/HighsHash.h\<close>) is the index of the highest set bit of a non-zero word.
\<close>

definition log2i :: "u64 \<Rightarrow> nat" where
  "log2i w = (case filter (bit w) (rev [0..<64]) of [] \<Rightarrow> 0 | p # _ \<Rightarrow> p)"

definition occ_set :: "u64 \<Rightarrow> nat \<Rightarrow> u64" where
  "occ_set occupation pos = occupation OR push_bit pos 1"

definition occ_flip :: "u64 \<Rightarrow> nat \<Rightarrow> u64" where
  "occ_flip occupation pos = occupation XOR push_bit pos 1"

definition occ_test :: "u64 \<Rightarrow> nat \<Rightarrow> bool" where
  "occ_test occupation pos = (occupation AND push_bit pos 1 \<noteq> 0)"

definition num_set_until :: "u64 \<Rightarrow> nat \<Rightarrow> nat" where
  "num_set_until occupation pos = popcnt (drop_bit pos occupation)"

text \<open>
  \<^verbatim>\<open>num_set_after\<close>: \<^verbatim>\<open>popcnt(occupation << (63 - pos))\<close>. The position is a
  \<^verbatim>\<open>uint8_t\<close> chunk value; for \<open>pos > 63\<close> the source shifts by a negative amount,
  which is undefined, and the truncated subtraction here shifts by 0.
\<close>

definition num_set_after :: "u64 \<Rightarrow> nat \<Rightarrow> nat" where
  "num_set_after occupation pos = popcnt (push_bit (63 - pos) occupation)"

definition num_set :: "u64 \<Rightarrow> nat" where
  "num_set occupation = popcnt occupation"

section \<open>Facts about occupation masks\<close>

lemma popcnt_card: "popcnt w = card {i. bit w i}"
proof -
  have "{i. bit w i} = set (filter (bit w) [0..<64])"
    by (auto dest: bit_imp_le_length)
  moreover have "distinct (filter (bit w) [0..<64])"
    by simp
  ultimately show ?thesis
    unfolding popcnt_def by (simp only: distinct_card)
qed

lemma finite_bits: "finite {i. bit w i}" for w :: u64
  by (rule finite_subset [of _ "{..<64}"]) (auto dest: bit_imp_le_length)

text \<open>The population count computed bit by bit from the low end; used for evaluation.\<close>

lemma popcnt_step [code]:
  "popcnt w = (if w = 0 then 0 else (if bit w 0 then 1 else 0) + popcnt (drop_bit 1 w))"
proof (cases "w = 0")
  case True
  then show ?thesis by (simp add: popcnt_card)
next
  case False
  have split: "{i. bit w i} = (if bit w 0 then {0} else {}) \<union> Suc ` {i. bit (drop_bit 1 w) i}"
  proof (rule set_eqI)
    fix i
    show "i \<in> {i. bit w i} \<longleftrightarrow>
          i \<in> (if bit w 0 then {0} else {}) \<union> Suc ` {i. bit (drop_bit 1 w) i}"
      by (cases i) (auto simp: bit_simps image_iff)
  qed
  have "card {i. bit w i} =
        card (if bit w 0 then {0::nat} else {}) + card (Suc ` {i. bit (drop_bit 1 w) i})"
    unfolding split by (rule card_Un_disjoint) (auto simp: finite_bits)
  also have "card (Suc ` {i. bit (drop_bit 1 w) i}) = card {i. bit (drop_bit 1 w) i}"
    by (rule card_image) simp
  finally show ?thesis using False by (simp add: popcnt_card)
qed

lemma occ_test_iff: "occ_test w p \<longleftrightarrow> bit w p"
proof -
  have a: "bit (w AND push_bit p 1) n \<longleftrightarrow> bit w p \<and> n = p" for n
    by (auto simp: bit_simps dest: bit_imp_le_length)
  have "(w AND push_bit p 1 = 0) \<longleftrightarrow> \<not> bit w p"
  proof
    assume "w AND push_bit p 1 = 0"
    then have "\<not> bit (w AND push_bit p 1) p" by simp
    then show "\<not> bit w p" by (simp only: a simp_thms)
  next
    assume "\<not> bit w p"
    then have "\<not> bit (w AND push_bit p 1) n" for n by (simp only: a simp_thms)
    then show "w AND push_bit p 1 = 0" by (simp add: bit_eq_iff)
  qed
  then show ?thesis by (simp add: occ_test_def)
qed

lemma bit_occ_set: "bit (occ_set w p) i \<longleftrightarrow> bit w i \<or> (i = p \<and> p < 64)"
  by (auto simp: occ_set_def bit_simps)

lemma bit_occ_flip: "bit (occ_flip w p) i \<longleftrightarrow> (bit w i \<noteq> (i = p \<and> p < 64))"
  by (auto simp: occ_flip_def bit_simps)

lemma num_set_after_card:
  assumes "p \<le> 63"
  shows "num_set_after w p = card {i. i \<le> p \<and> bit w i}"
proof -
  let ?n = "63 - p"
  have "{i. bit (push_bit ?n w) i} = (\<lambda>i. i + ?n) ` {i. i \<le> p \<and> bit w i}"
  proof (rule set_eqI, rule iffI)
    fix i assume "i \<in> {i. bit (push_bit ?n w) i}"
    then have b: "?n \<le> i" "i < 64" "bit w (i - ?n)"
      by (auto simp: bit_simps)
    then have "i - ?n \<le> p" using assms by arith
    with b have "i - ?n \<in> {i. i \<le> p \<and> bit w i}" "i = (i - ?n) + ?n" by auto
    then show "i \<in> (\<lambda>i. i + ?n) ` {i. i \<le> p \<and> bit w i}" by (rule_tac image_eqI)
  next
    fix i assume "i \<in> (\<lambda>i. i + ?n) ` {i. i \<le> p \<and> bit w i}"
    then obtain j where "i = j + ?n" "j \<le> p" "bit w j" by auto
    then show "i \<in> {i. bit (push_bit ?n w) i}"
      using assms by (auto simp: bit_simps)
  qed
  moreover have "inj_on (\<lambda>i. i + ?n) {i. i \<le> p \<and> bit w i}"
    by (simp add: inj_on_def)
  ultimately show ?thesis
    by (simp add: num_set_after_def popcnt_card card_image)
qed

lemma log2i_bit:
  assumes "w \<noteq> 0"
  shows "bit w (log2i w)"
proof -
  from assms obtain i where i: "bit w i"
    by (auto simp: bit_eq_iff)
  then have "i \<in> set (filter (bit w) (rev [0..<64]))"
    by (auto dest: bit_imp_le_length)
  then obtain p ps where ps: "filter (bit w) (rev [0..<64]) = p # ps"
    by (cases "filter (bit w) (rev [0..<64])") auto
  then have "p \<in> set (filter (bit w) (rev [0..<64]))"
    by simp
  then have "bit w p" by simp
  with ps show ?thesis by (simp add: log2i_def)
qed

lemma popcnt_clear_bit:
  assumes "bit w p"
  shows "popcnt (w XOR push_bit p 1) < popcnt w"
proof -
  have p: "p < 64" using assms by (auto dest: bit_imp_le_length)
  have "{i. bit (w XOR push_bit p 1) i} = {i. bit w i} - {p}"
    using assms p by (auto simp: bit_simps)
  moreover have "finite {i. bit w i}"
    by (rule finite_subset [of _ "{..<64}"]) (auto dest: bit_imp_le_length)
  moreover have "p \<in> {i. bit w i}" using assms by simp
  ultimately have "card {i. bit (w XOR push_bit p 1) i} < card {i. bit w i}"
    by (simp only: card_Diff1_less)
  then show ?thesis by (simp only: popcnt_card)
qed

lemma popcnt_clear_log2i:
  "w \<noteq> 0 \<Longrightarrow> popcnt (w XOR 2 ^ log2i w) < popcnt w"
  using popcnt_clear_bit [OF log2i_bit, of w] by simp

section \<open>Nodes\<close>

text \<open>
  A \<^verbatim>\<open>NodePtr\<close> is a tagged pointer to one of the node kinds. The model is
  the pointed-to value: the empty pointer, a list leaf (\<^verbatim>\<open>first\<close> entry, the chain
  reached through \<^verbatim>\<open>first.next\<close>, and the \<^verbatim>\<open>count\<close> field), an inner leaf of a
  size class (occupation mask and the first \<^verbatim>\<open>size\<close> slots of \<^verbatim>\<open>entries\<close>),
  or a branch node (occupation mask and the initialised child slots).
  Slots of an entry array beyond \<^verbatim>\<open>size\<close> and child slots that were never written hold
  no defined value; an operation that would read one, index a child array out of range,
  fail an \<^verbatim>\<open>assert\<close>, dereference a null pointer or shift past the word width has
  no defined result in the source and returns \<open>None\<close> here.
\<close>

type_synonym ('k, 'v) entry = "'k \<times> 'v"

datatype ('k, 'v) node =
    Empty
  | ListLeaf "('k, 'v) entry" "('k, 'v) entry list" int
  | InnerLeaf nat u64 "('k, 'v) entry list"
  | BranchNode u64 "('k, 'v) node list"

text \<open>The tag values of \<^verbatim>\<open>enum Type\<close>.\<close>

fun getType :: "('k, 'v) node \<Rightarrow> nat" where
  "getType Empty = 0"
| "getType (ListLeaf first rest count) = 1"
| "getType (InnerLeaf c occupation entries) = c + 1"
| "getType (BranchNode occupation children) = 6"

definition capacity :: "nat \<Rightarrow> nat" where
  "capacity kSizeClass =
     kMinLeafSize + (kSizeClass - 1) * (kLeafBurstThreshold - kMinLeafSize) div 3"

fun numEntriesEstimate :: "('k, 'v) node \<Rightarrow> nat" where
  "numEntriesEstimate Empty = 0"
| "numEntriesEstimate (ListLeaf first rest count) = 1"
| "numEntriesEstimate (InnerLeaf c occupation entries) = capacity c"
| "numEntriesEstimate (BranchNode occupation children) = kBranchFactor"

fun numEntries :: "('k, 'v) node \<Rightarrow> int" where
  "numEntries Empty = 0"
| "numEntries (ListLeaf first rest count) = count"
| "numEntries (InnerLeaf c occupation entries) = int (length entries)"
| "numEntries (BranchNode occupation children) = int kBranchFactor"

section \<open>Inner leaves\<close>

text \<open>
  The two linear scans of \<^verbatim>\<open>insert_entry\<close> and \<^verbatim>\<open>find_entry\<close>: the index of
  the first entry whose key is not below (respectively: is above) the given key, or the
  number of entries when there is none.
\<close>

fun first_geq :: "'k::linorder \<Rightarrow> ('k, 'v) entry list \<Rightarrow> nat" where
  "first_geq key [] = 0"
| "first_geq key (e # es) = (if key \<le> fst e then 0 else Suc (first_geq key es))"

fun first_gt :: "'k::linorder \<Rightarrow> ('k, 'v) entry list \<Rightarrow> nat" where
  "first_gt key [] = 0"
| "first_gt key (e # es) = (if key < fst e then 0 else Suc (first_gt key es))"

text \<open>
  \<^verbatim>\<open>InnerLeaf::insert_entry\<close> on a leaf of the given capacity. The result is the
  returned flag with the new occupation mask and entries.
\<close>

definition insert_entry ::
  "nat \<Rightarrow> u64 \<Rightarrow> ('k::linorder, 'v) entry list \<Rightarrow> u64 \<Rightarrow> nat \<Rightarrow> ('k, 'v) entry
     \<Rightarrow> (bool \<times> u64 \<times> ('k, 'v) entry list) option" where
  "insert_entry cap occupation entries hash hashPos entry =
     (if \<not> length entries < cap then None
      else
        let hashChunk = get_hash_chunk hash hashPos in
        if occ_test occupation hashChunk then
          (if entries = [] then None
           else
             let i = first_geq (fst entry) entries in
             if i = length entries then Some (True, occupation, entries @ [entry])
             else if fst entry = fst (entries ! i) then Some (False, occupation, entries)
             else Some (True, occupation, take i entries @ entry # drop i entries))
        else
          let i = first_gt (fst entry) entries in
          Some (True, occ_set occupation hashChunk, take i entries @ entry # drop i entries))"

definition find_entry ::
  "u64 \<Rightarrow> ('k::linorder, 'v) entry list \<Rightarrow> u64 \<Rightarrow> nat \<Rightarrow> 'k \<Rightarrow> 'v option option" where
  "find_entry occupation entries hash hashPos key =
     (if \<not> occ_test occupation (get_hash_chunk hash hashPos) then Some None
      else if entries = [] then None
      else
        let i = first_geq key entries in
        if i = length entries then Some None
        else if key = fst (entries ! i) then Some (Some (snd (entries ! i)))
        else Some None)"

text \<open>
  The single pass of \<^verbatim>\<open>erase_entry\<close>: it returns the entries that remain in the
  first \<^verbatim>\<open>size - foundElement\<close> slots, \<^verbatim>\<open>foundElement\<close> and \<^verbatim>\<open>foundHashChunk\<close>.
\<close>

fun erase_loop ::
  "('k \<Rightarrow> u64) \<Rightarrow> nat \<Rightarrow> nat \<Rightarrow> 'k \<Rightarrow> ('k, 'v) entry list \<Rightarrow> bool \<Rightarrow> nat
     \<Rightarrow> ('k, 'v) entry list \<times> bool \<times> nat" where
  "erase_loop hf hashChunk hashPos key [] foundElement foundHashChunk =
     ([], foundElement, foundHashChunk)"
| "erase_loop hf hashChunk hashPos key (e # es) foundElement foundHashChunk =
     (let chunk = get_hash_chunk (hf (fst e)) hashPos;
          foundHashChunk' = foundHashChunk + (if chunk = hashChunk then 1 else 0)
      in
        if foundHashChunk' \<noteq> 0 \<and> \<not> foundElement \<and> key = fst e
        then erase_loop hf hashChunk hashPos key es True foundHashChunk'
        else
          (case erase_loop hf hashChunk hashPos key es foundElement foundHashChunk' of
             (es', r) \<Rightarrow> (e # es', r)))"

definition erase_entry ::
  "('k \<Rightarrow> u64) \<Rightarrow> u64 \<Rightarrow> ('k, 'v) entry list \<Rightarrow> u64 \<Rightarrow> nat \<Rightarrow> 'k
     \<Rightarrow> (bool \<times> u64 \<times> ('k, 'v) entry list) option" where
  "erase_entry hf occupation entries hash hashPos key =
     (let hashChunk = get_hash_chunk hash hashPos in
      if \<not> occ_test occupation hashChunk then Some (False, occupation, entries)
      else if entries = [] then None
      else
        (case erase_loop hf hashChunk hashPos key entries False 0 of
           (entries', foundElement, foundHashChunk) \<Rightarrow>
             if foundElement
             then Some (True,
                        if foundHashChunk = 1 then occ_flip occupation hashChunk
                        else occupation,
                        entries')
             else Some (False, occupation, entries')))"

text \<open>
  \<^verbatim>\<open>mergeIntoLeaf\<close> (leaf into leaf): every entry is inserted with the hash of its key;
  the flag returned by \<^verbatim>\<open>insert_entry\<close> is ignored. The second overload takes a node:
  the chain of a list leaf or the entries of an inner leaf; its \<^verbatim>\<open>switch\<close> has no arm
  for the empty pointer or a branch node, which are left alone.
\<close>

fun mergeIntoLeaf ::
  "('k::linorder \<Rightarrow> u64) \<Rightarrow> nat \<Rightarrow> u64 \<times> ('k, 'v) entry list \<Rightarrow> nat \<Rightarrow> ('k, 'v) entry list
     \<Rightarrow> (u64 \<times> ('k, 'v) entry list) option" where
  "mergeIntoLeaf hf cap leaf hashPos [] = Some leaf"
| "mergeIntoLeaf hf cap leaf hashPos (e # es) =
     (case insert_entry cap (fst leaf) (snd leaf) (hf (fst e)) hashPos e of
        None \<Rightarrow> None
      | Some (b, leaf') \<Rightarrow> mergeIntoLeaf hf cap leaf' hashPos es)"

fun mergeNodeIntoLeaf ::
  "('k::linorder \<Rightarrow> u64) \<Rightarrow> nat \<Rightarrow> u64 \<times> ('k, 'v) entry list \<Rightarrow> nat \<Rightarrow> ('k, 'v) node
     \<Rightarrow> (u64 \<times> ('k, 'v) entry list) option" where
  "mergeNodeIntoLeaf hf cap leaf hashPos (ListLeaf first rest count) =
     mergeIntoLeaf hf cap leaf hashPos (first # rest)"
| "mergeNodeIntoLeaf hf cap leaf hashPos (InnerLeaf c occupation entries) =
     (if 1 \<le> c \<and> c \<le> 4 then mergeIntoLeaf hf cap leaf hashPos entries else Some leaf)"
| "mergeNodeIntoLeaf hf cap leaf hashPos Empty = Some leaf"
| "mergeNodeIntoLeaf hf cap leaf hashPos (BranchNode occupation children) = Some leaf"

fun mergeChildren ::
  "('k::linorder \<Rightarrow> u64) \<Rightarrow> nat \<Rightarrow> u64 \<times> ('k, 'v) entry list \<Rightarrow> nat \<Rightarrow> ('k, 'v) node list
     \<Rightarrow> (u64 \<times> ('k, 'v) entry list) option" where
  "mergeChildren hf cap leaf hashPos [] = Some leaf"
| "mergeChildren hf cap leaf hashPos (child # children) =
     (case mergeNodeIntoLeaf hf cap leaf hashPos child of
        None \<Rightarrow> None
      | Some leaf' \<Rightarrow> mergeChildren hf cap leaf' hashPos children)"

section \<open>Branch nodes\<close>

text \<open>
  \<^verbatim>\<open>addChildToBranchNode\<close> moves the \<^verbatim>\<open>rightChilds\<close> children from
  \<^verbatim>\<open>location\<close> on one slot to the right, in place or into a new allocation, and leaves
  slot \<^verbatim>\<open>location\<close> to the caller, which stores the empty pointer there. The model
  returns the child array with that slot already empty. The allocation size
  (\<^verbatim>\<open>getBranchNodeSize\<close>) only decides between moving in place and reallocating and
  is not modelled.
\<close>

definition addChildToBranchNode ::
  "u64 \<Rightarrow> ('k, 'v) node list \<Rightarrow> nat \<Rightarrow> nat \<Rightarrow> ('k, 'v) node list option" where
  "addChildToBranchNode occupation children hashValue location =
     (let rightChilds = num_set_after occupation hashValue in
      if rightChilds + location \<noteq> num_set occupation then None
      else if length children \<noteq> location + rightChilds then None
      else Some (take location children @ Empty # drop location children))"

text \<open>
  The first loop of \<^verbatim>\<open>removeChildFromBranchNode\<close>, which sums the estimates and
  stops as soon as the sum exceeds the burst threshold.
\<close>

fun estimate_loop :: "('k, 'v) node list \<Rightarrow> nat \<Rightarrow> nat" where
  "estimate_loop [] childEntries = childEntries"
| "estimate_loop (child # children) childEntries =
     (let childEntries' = childEntries + numEntriesEstimate child in
      if childEntries' > kLeafBurstThreshold then childEntries'
      else estimate_loop children childEntries')"

text \<open>C++ integer division truncates towards zero.\<close>

definition tdiv :: "int \<Rightarrow> int \<Rightarrow> int" where
  "tdiv a b = sgn a * sgn b * (\<bar>a\<bar> div \<bar>b\<bar>)"

text \<open>
  \<^verbatim>\<open>removeChildFromBranchNode\<close> is called with the occupation bit of the removed
  child already flipped and the child array still holding the emptied slot, so the array
  has \<^verbatim>\<open>newNumChild + 1\<close> slots.
\<close>

definition removeChildFromBranchNode ::
  "('k::linorder \<Rightarrow> u64) \<Rightarrow> u64 \<Rightarrow> ('k, 'v) node list \<Rightarrow> nat \<Rightarrow> nat
     \<Rightarrow> ('k, 'v) node option" where
  "removeChildFromBranchNode hf occupation children location hashPos =
     (let newNumChild = num_set occupation;
          compacted = BranchNode occupation (take location children @ drop (location + 1) children)
      in
        if length children \<noteq> newNumChild + 1 then None
        else if newNumChild * capacity 1 \<le> kLeafBurstThreshold then
          (if estimate_loop children 0 < kLeafBurstThreshold then
             (let childEntries = sum_list (map numEntries children) in
              if childEntries < int kLeafBurstThreshold then
                (let sw = tdiv (childEntries + 1) 8 in
                 if sw = 0 \<or> sw = 1 \<or> sw = 2 \<or> sw = 3 then
                   (case mergeChildren hf (capacity (nat sw + 1)) (0, []) hashPos children of
                      None \<Rightarrow> None
                    | Some (occ, es) \<Rightarrow> Some (InnerLeaf (nat sw + 1) occ es))
                 else Some Empty)
              else Some compacted)
           else Some compacted)
        else Some compacted)"

section \<open>Insertion\<close>

text \<open>
  \<^verbatim>\<open>insert_into_leaf\<close> for the size classes 1 to 3: a full leaf that does not hold
  the key is replaced by a leaf of the next class, filled by \<^verbatim>\<open>mergeIntoLeaf\<close>.
\<close>

definition insert_into_leaf ::
  "('k::linorder \<Rightarrow> u64) \<Rightarrow> nat \<Rightarrow> u64 \<Rightarrow> ('k, 'v) entry list \<Rightarrow> u64 \<Rightarrow> nat \<Rightarrow> ('k, 'v) entry
     \<Rightarrow> (bool \<times> ('k, 'v) node) option" where
  "insert_into_leaf hf c occupation entries hash hashPos entry =
     (if length entries = capacity c then
        (case find_entry occupation entries hash hashPos (fst entry) of
           None \<Rightarrow> None
         | Some (Some v) \<Rightarrow> Some (False, InnerLeaf c occupation entries)
         | Some None \<Rightarrow>
             (case mergeIntoLeaf hf (capacity (c + 1)) (0, []) hashPos entries of
                None \<Rightarrow> None
              | Some (occ', es') \<Rightarrow>
                  (case insert_entry (capacity (c + 1)) occ' es' hash hashPos entry of
                     None \<Rightarrow> None
                   | Some (b, occ'', es'') \<Rightarrow> Some (b, InnerLeaf (c + 1) occ'' es''))))
      else
        (case insert_entry (capacity c) occupation entries hash hashPos entry of
           None \<Rightarrow> None
         | Some (b, occ', es') \<Rightarrow> Some (b, InnerLeaf c occ' es')))"

text \<open>
  The burst of a full class-4 leaf at the last branch level (\<^verbatim>\<open>hashPos + 1 == kMaxDepth\<close>):
  the loop over the old entries reads and writes \<^verbatim>\<open>branch->child[pos]\<close>, where
  \<^verbatim>\<open>pos\<close> was computed once, from the chunk of the incoming entry.
\<close>

fun funnel_loop ::
  "('k, 'v) node list \<Rightarrow> nat \<Rightarrow> ('k, 'v) entry list \<Rightarrow> ('k, 'v) node list option" where
  "funnel_loop children pos [] = Some children"
| "funnel_loop children pos (e # es) =
     (case children ! pos of
        Empty \<Rightarrow> funnel_loop (children[pos := ListLeaf e [] 1]) pos es
      | ListLeaf first rest count \<Rightarrow>
          funnel_loop (children[pos := ListLeaf e (first # rest) (count + 1)]) pos es
      | InnerLeaf c occupation entries \<Rightarrow> None
      | BranchNode occupation cs \<Rightarrow> None)"

definition burst_list_leaves ::
  "u64 \<Rightarrow> u64 \<Rightarrow> nat \<Rightarrow> ('k, 'v) entry list \<Rightarrow> ('k, 'v) entry \<Rightarrow> ('k, 'v) node option" where
  "burst_list_leaves occupation hash hashPos entries entry =
     (let branchSize = num_set occupation;
          children = replicate branchSize Empty;
          n = num_set_until occupation (get_hash_chunk hash hashPos)
      in
        if n = 0 \<or> \<not> n - 1 < branchSize then None
        else
          (case funnel_loop (children[n - 1 := ListLeaf entry [] 1]) (n - 1) entries of
             None \<Rightarrow> None
           | Some children' \<Rightarrow> Some (BranchNode occupation children')))"

text \<open>
  The other bursts distribute the old entries over new inner leaves:
  \<^verbatim>\<open>branch->child[pos]\<close> with \<^verbatim>\<open>pos\<close> recomputed from each entry's own hash.
\<close>

fun insert_into_child ::
  "('k::linorder, 'v) node \<Rightarrow> u64 \<Rightarrow> nat \<Rightarrow> ('k, 'v) entry \<Rightarrow> ('k, 'v) node option" where
  "insert_into_child (InnerLeaf c occupation entries) hash hashPos entry =
     (if 1 \<le> c \<and> c \<le> 4 then
        (case insert_entry (capacity c) occupation entries hash hashPos entry of
           None \<Rightarrow> None
         | Some (b, occ', es') \<Rightarrow> Some (InnerLeaf c occ' es'))
      else None)"
| "insert_into_child Empty hash hashPos entry = None"
| "insert_into_child (ListLeaf first rest count) hash hashPos entry = None"
| "insert_into_child (BranchNode occupation children) hash hashPos entry = None"

fun distribute ::
  "('k::linorder \<Rightarrow> u64) \<Rightarrow> u64 \<Rightarrow> nat \<Rightarrow> ('k, 'v) node list \<Rightarrow> ('k, 'v) entry list
     \<Rightarrow> ('k, 'v) node list option" where
  "distribute hf occupation hashPos children [] = Some children"
| "distribute hf occupation hashPos children (e # es) =
     (let n = num_set_until occupation (get_hash_chunk (hf (fst e)) hashPos) in
      if n = 0 \<or> \<not> n - 1 < length children then None
      else
        (case insert_into_child (children ! (n - 1)) (hf (fst e)) (hashPos + 1) e of
           None \<Rightarrow> None
         | Some child \<Rightarrow> distribute hf occupation hashPos (children[n - 1 := child]) es))"

definition burst_small ::
  "('k::linorder \<Rightarrow> u64) \<Rightarrow> u64 \<Rightarrow> u64 \<Rightarrow> nat \<Rightarrow> ('k, 'v) entry list \<Rightarrow> ('k, 'v) entry
     \<Rightarrow> ('k, 'v) node option" where
  "burst_small hf occupation hash hashPos entries entry =
     (let branchSize = num_set occupation;
          children = replicate branchSize (InnerLeaf 1 0 []);
          n = num_set_until occupation (get_hash_chunk hash hashPos)
      in
        if n = 0 \<or> \<not> n - 1 < branchSize then None
        else
          (case insert_into_child (children ! (n - 1)) hash (hashPos + 1) entry of
             None \<Rightarrow> None
           | Some child \<Rightarrow>
               (case distribute hf occupation hashPos (children[n - 1 := child]) entries of
                  None \<Rightarrow> None
                | Some children' \<Rightarrow> Some (BranchNode occupation children'))))"

fun count_sizes ::
  "('k \<Rightarrow> u64) \<Rightarrow> u64 \<Rightarrow> nat \<Rightarrow> nat list \<Rightarrow> ('k, 'v) entry list \<Rightarrow> nat list option" where
  "count_sizes hf occupation hashPos sizes [] = Some sizes"
| "count_sizes hf occupation hashPos sizes (e # es) =
     (let n = num_set_until occupation (get_hash_chunk (hf (fst e)) hashPos) in
      if n = 0 \<or> \<not> n - 1 < length sizes then None
      else count_sizes hf occupation hashPos (sizes[n - 1 := sizes ! (n - 1) + 1]) es)"

definition allocate_leaf :: "nat \<Rightarrow> ('k, 'v) node" where
  "allocate_leaf sz = InnerLeaf ((sz + 1) div 8 + 1) 0 []"

text \<open>
  The burst with many collisions: exact sizes first (the array \<^verbatim>\<open>sizes\<close> has
  \<^verbatim>\<open>capacity() + 1\<close> slots), then a leaf of the class chosen by
  \<^verbatim>\<open>(sizes[i] + 1) / 8\<close> per child (the \<^verbatim>\<open>switch\<close> has the arms 0 to 3 and leaves
  the slot unwritten otherwise), then the old entries. The incoming entry is inserted
  afterwards by the recursive call.
\<close>

definition burst_sized ::
  "('k::linorder \<Rightarrow> u64) \<Rightarrow> u64 \<Rightarrow> u64 \<Rightarrow> nat \<Rightarrow> ('k, 'v) entry list
     \<Rightarrow> ('k, 'v) node list option" where
  "burst_sized hf occupation hash hashPos entries =
     (let branchSize = num_set occupation;
          n = num_set_until occupation (get_hash_chunk hash hashPos)
      in
        if branchSize > capacity 4 + 1 then None
        else if n = 0 \<or> \<not> n - 1 < branchSize then None
        else
          (case count_sizes hf occupation hashPos ((replicate branchSize 0)[n - 1 := 1]) entries of
             None \<Rightarrow> None
           | Some sizes \<Rightarrow>
               if \<not> list_all (\<lambda>sz. (sz + 1) div 8 < 4) sizes then None
               else distribute hf occupation hashPos (map allocate_leaf sizes) entries))"

function insert_recurse ::
  "('k::linorder \<Rightarrow> u64) \<Rightarrow> ('k, 'v) node \<Rightarrow> u64 \<Rightarrow> nat \<Rightarrow> ('k, 'v) entry
     \<Rightarrow> (bool \<times> ('k, 'v) node) option" where
  "insert_recurse hf Empty hash hashPos entry =
     (if hashPos = kMaxDepth then Some (True, ListLeaf entry [] 1)
      else if hashPos > kMaxDepth then None
      else
        (case insert_entry (capacity 1) 0 [] hash hashPos entry of
           None \<Rightarrow> None
         | Some (b, occ, es) \<Rightarrow> Some (True, InnerLeaf 1 occ es)))"
| "insert_recurse hf (ListLeaf first rest count) hash hashPos entry =
     (if list_ex (\<lambda>e. fst e = fst entry) (first # rest)
      then Some (False, ListLeaf first rest count)
      else Some (True, ListLeaf first (rest @ [entry]) (count + 1)))"
| "insert_recurse hf (InnerLeaf c occupation entries) hash hashPos entry =
     (if hashPos \<ge> kMaxDepth then None
      else if c = 1 \<or> c = 2 \<or> c = 3
      then insert_into_leaf hf c occupation entries hash hashPos entry
      else if c \<noteq> 4 then None
      else if length entries < capacity 4 then
        (case insert_entry (capacity 4) occupation entries hash hashPos entry of
           None \<Rightarrow> None
         | Some (b, occ', es') \<Rightarrow> Some (b, InnerLeaf 4 occ' es'))
      else if length entries > capacity 4 then None
      else
        (case find_entry occupation entries hash hashPos (fst entry) of
           None \<Rightarrow> None
         | Some (Some v) \<Rightarrow> Some (False, InnerLeaf c occupation entries)
         | Some None \<Rightarrow>
             (let hashChunk = get_hash_chunk hash hashPos;
                  occupation' = occ_set occupation hashChunk;
                  branchSize = num_set occupation'
              in
                if hashPos + 1 = kMaxDepth then
                  (case burst_list_leaves occupation' hash hashPos entries entry of
                     None \<Rightarrow> None
                   | Some branch \<Rightarrow> Some (True, branch))
                else if branchSize > 1 then
                  (if 2 + int (length entries) - int branchSize \<le> int (capacity 1) then
                     (case burst_small hf occupation' hash hashPos entries entry of
                        None \<Rightarrow> None
                      | Some branch \<Rightarrow> Some (True, branch))
                   else
                     (case burst_sized hf occupation' hash hashPos entries of
                        None \<Rightarrow> None
                      | Some children \<Rightarrow>
                          (let pos = num_set_until occupation' hashChunk - 1 in
                           if \<not> pos < length children then None
                           else
                             (case insert_recurse hf (children ! pos) hash (hashPos + 1) entry of
                                None \<Rightarrow> None
                              | Some (b, child) \<Rightarrow>
                                  Some (b, BranchNode occupation' (children[pos := child]))))))
                else
                  (case insert_recurse hf (InnerLeaf c occupation entries) hash (hashPos + 1) entry of
                     None \<Rightarrow> None
                   | Some (b, child) \<Rightarrow> Some (b, BranchNode occupation' [child])))))"
| "insert_recurse hf (BranchNode occupation children) hash hashPos entry =
     (if hashPos \<ge> kMaxDepth then None
      else
        (let hashChunk = get_hash_chunk hash hashPos;
             location = num_set_until occupation hashChunk
         in
           if occ_test occupation hashChunk then
             (if location = 0 \<or> \<not> location - 1 < length children then None
              else
                (case insert_recurse hf (children ! (location - 1)) hash (hashPos + 1) entry of
                   None \<Rightarrow> None
                 | Some (b, child) \<Rightarrow>
                     Some (b, BranchNode occupation (children[location - 1 := child]))))
           else
             (case addChildToBranchNode occupation children hashChunk location of
                None \<Rightarrow> None
              | Some children' \<Rightarrow>
                  (case insert_recurse hf Empty hash (hashPos + 1) entry of
                     None \<Rightarrow> None
                   | Some (b, child) \<Rightarrow>
                       Some (b, BranchNode (occ_set occupation hashChunk)
                                  (children'[location := child]))))))"
  by pat_completeness auto
termination
  by (relation "measure (\<lambda>(hf, n, hash, hashPos, entry). kMaxDepth - hashPos)")
     (auto simp: kMaxDepth_def kBitsPerLevel_def)

declare insert_recurse.simps(3) [simp del]

section \<open>Lookup\<close>

function find_recurse ::
  "('k::linorder, 'v) node \<Rightarrow> u64 \<Rightarrow> nat \<Rightarrow> 'k \<Rightarrow> 'v option option" where
  "find_recurse Empty hash hashPos key = Some None"
| "find_recurse (ListLeaf first rest count) hash hashPos key =
     Some (map_option snd (find (\<lambda>e. fst e = key) (first # rest)))"
| "find_recurse (InnerLeaf c occupation entries) hash hashPos key =
     (if hashPos \<ge> kMaxDepth then None
      else if 1 \<le> c \<and> c \<le> 4 then find_entry occupation entries hash hashPos key
      else None)"
| "find_recurse (BranchNode occupation children) hash hashPos key =
     (if hashPos \<ge> kMaxDepth then None
      else
        (let hashChunk = get_hash_chunk hash hashPos in
         if \<not> occ_test occupation hashChunk then Some None
         else
           (let location = num_set_until occupation hashChunk in
            if location = 0 \<or> \<not> location - 1 < length children then None
            else find_recurse (children ! (location - 1)) hash (hashPos + 1) key)))"
  by pat_completeness auto
termination
  by (relation "measure (\<lambda>(n, hash, hashPos, key). kMaxDepth - hashPos)")
     (auto simp: kMaxDepth_def kBitsPerLevel_def)

section \<open>Erasure\<close>

text \<open>
  The loop of \<^verbatim>\<open>erase_recurse\<close> over the chain of a list leaf, on the list of the
  chain's entries: at the node that holds the key, the successor (if there is one) is
  moved into the node and deleted; a node without successor is left as it is.
  The flag tells whether the key was met, in which case \<^verbatim>\<open>count\<close> was decremented.
\<close>

fun erase_chain :: "'k \<Rightarrow> ('k, 'v) entry list \<Rightarrow> bool \<times> ('k, 'v) entry list" where
  "erase_chain key [] = (False, [])"
| "erase_chain key (e # es) =
     (if fst e = key then (True, (case es of [] \<Rightarrow> [e] | next # after \<Rightarrow> next # after))
      else (case erase_chain key es of (found, es') \<Rightarrow> (found, e # es')))"

text \<open>One of the arms of \<^verbatim>\<open>erase_recurse\<close> for the inner leaves.\<close>

definition erase_from_leaf ::
  "('k::linorder \<Rightarrow> u64) \<Rightarrow> nat \<Rightarrow> u64 \<Rightarrow> ('k, 'v) entry list \<Rightarrow> u64 \<Rightarrow> nat \<Rightarrow> 'k
     \<Rightarrow> ('k, 'v) node option" where
  "erase_from_leaf hf c occupation entries hash hashPos key =
     (case erase_entry hf occupation entries hash hashPos key of
        None \<Rightarrow> None
      | Some (erased, occ', es') \<Rightarrow>
          if \<not> erased then Some (InnerLeaf c occ' es')
          else if c = 1 then (if length es' = 0 then Some Empty else Some (InnerLeaf c occ' es'))
          else if length es' = capacity (c - 1) then
            (case mergeIntoLeaf hf (capacity (c - 1)) (0, []) hashPos es' of
               None \<Rightarrow> None
             | Some (occ'', es'') \<Rightarrow> Some (InnerLeaf (c - 1) occ'' es''))
          else Some (InnerLeaf c occ' es'))"

function erase_recurse ::
  "('k::linorder \<Rightarrow> u64) \<Rightarrow> ('k, 'v) node \<Rightarrow> u64 \<Rightarrow> nat \<Rightarrow> 'k \<Rightarrow> ('k, 'v) node option" where
  "erase_recurse hf Empty hash hashPos key = Some Empty"
| "erase_recurse hf (ListLeaf first rest count) hash hashPos key =
     (case erase_chain key (first # rest) of
        (found, chain) \<Rightarrow>
          (let count' = (if found then count - 1 else count) in
           if count' = 0 then Some Empty
           else (case chain of [] \<Rightarrow> None | first' # rest' \<Rightarrow> Some (ListLeaf first' rest' count'))))"
| "erase_recurse hf (InnerLeaf c occupation entries) hash hashPos key =
     (if hashPos \<ge> kMaxDepth then None
      else if 1 \<le> c \<and> c \<le> 4 then erase_from_leaf hf c occupation entries hash hashPos key
      else None)"
| "erase_recurse hf (BranchNode occupation children) hash hashPos key =
     (if hashPos \<ge> kMaxDepth then None
      else
        (let hashChunk = get_hash_chunk hash hashPos in
         if \<not> occ_test occupation hashChunk then Some (BranchNode occupation children)
         else
           (let location = num_set_until occupation hashChunk in
            if location = 0 \<or> \<not> location - 1 < length children then None
            else
              (case erase_recurse hf (children ! (location - 1)) hash (hashPos + 1) key of
                 None \<Rightarrow> None
               | Some child \<Rightarrow>
                   if child \<noteq> Empty
                   then Some (BranchNode occupation (children[location - 1 := child]))
                   else removeChildFromBranchNode hf (occ_flip occupation hashChunk)
                          (children[location - 1 := child]) (location - 1) hashPos))))"
  by pat_completeness auto
termination
  by (relation "measure (\<lambda>(hf, n, hash, hashPos, key). kMaxDepth - hashPos)")
     (auto simp: kMaxDepth_def kBitsPerLevel_def)

section \<open>Common entries of two trees\<close>

text \<open>
  The positions visited by the loop \<^verbatim>\<open>while (matchMask)\<close> of
  \<^verbatim>\<open>find_common_recurse\<close>: the highest set bit is taken and cleared until the mask
  is zero. The visits do not change the mask otherwise.
\<close>

function match_positions :: "u64 \<Rightarrow> nat list" where
  "match_positions matchMask =
     (if matchMask = 0 then []
      else
        (let pos = log2i matchMask in
         pos # match_positions (matchMask XOR push_bit pos 1)))"
  by pat_completeness auto
termination
  by (relation "measure popcnt") (simp_all add: popcnt_clear_log2i)

declare match_positions.simps [simp del]

text \<open>The merge loop of \<^verbatim>\<open>findCommonInLeaf\<close> over two sorted entry arrays.\<close>

fun common_scan ::
  "('k::linorder, 'v) entry list \<Rightarrow> ('k, 'v) entry list \<Rightarrow> ('k, 'v) entry option" where
  "common_scan [] es2 = None"
| "common_scan (e1 # es1) [] = None"
| "common_scan (e1 # es1) (e2 # es2) =
     (if fst e1 < fst e2 then common_scan es1 (e2 # es2)
      else if fst e2 < fst e1 then common_scan (e1 # es1) es2
      else Some e1)"

definition findCommonInLeaves ::
  "u64 \<Rightarrow> ('k::linorder, 'v) entry list \<Rightarrow> u64 \<Rightarrow> ('k, 'v) entry list
     \<Rightarrow> ('k, 'v) entry option option" where
  "findCommonInLeaves occupation1 entries1 occupation2 entries2 =
     (if occupation1 AND occupation2 = 0 then Some None
      else if entries1 = [] \<or> entries2 = [] then None
      else if fst (last entries1) < fst (hd entries2) \<or> fst (last entries2) < fst (hd entries1)
      then Some None
      else Some (common_scan entries1 entries2))"

text \<open>
  Probing the entries of one node in the other node with \<^verbatim>\<open>find_recurse\<close>, as the
  list-leaf arm of \<^verbatim>\<open>find_common_recurse\<close> and the branch arm of
  \<^verbatim>\<open>findCommonInLeaf\<close> do.
\<close>

fun probe_entries ::
  "('k::linorder \<Rightarrow> u64) \<Rightarrow> ('k, 'v) entry list \<Rightarrow> ('k, 'v) node \<Rightarrow> nat
     \<Rightarrow> ('k, 'v) entry option option" where
  "probe_entries hf [] n2 hashPos = Some None"
| "probe_entries hf (e # es) n2 hashPos =
     (case find_recurse n2 (hf (fst e)) hashPos (fst e) of
        None \<Rightarrow> None
      | Some (Some v) \<Rightarrow> Some (Some e)
      | Some None \<Rightarrow> probe_entries hf es n2 hashPos)"

fun findCommonInLeaf ::
  "('k::linorder \<Rightarrow> u64) \<Rightarrow> u64 \<Rightarrow> ('k, 'v) entry list \<Rightarrow> ('k, 'v) node \<Rightarrow> nat
     \<Rightarrow> ('k, 'v) entry option option" where
  "findCommonInLeaf hf occupation entries (InnerLeaf c2 occupation2 entries2) hashPos =
     (if 1 \<le> c2 \<and> c2 \<le> 4 then findCommonInLeaves occupation entries occupation2 entries2
      else Some None)"
| "findCommonInLeaf hf occupation entries (BranchNode occupation2 children2) hashPos =
     probe_entries hf entries (BranchNode occupation2 children2) hashPos"
| "findCommonInLeaf hf occupation entries Empty hashPos = Some None"
| "findCommonInLeaf hf occupation entries (ListLeaf first rest count) hashPos = Some None"

text \<open>The first match of the visits of the loop over the common occupation bits.\<close>

fun first_match :: "'a option option list \<Rightarrow> 'a option option" where
  "first_match [] = Some None"
| "first_match (None # rs) = None"
| "first_match (Some (Some e) # rs) = Some (Some e)"
| "first_match (Some None # rs) = first_match rs"

lemma size_member_child:
  "x \<in> set cs \<Longrightarrow> size x < Suc (size_list size cs)"
  by (induction cs) auto

lemma size_nth_child:
  "i < length cs \<Longrightarrow> size (cs ! i) < Suc (size_list size cs)"
  by (rule size_member_child) simp

lemma size_two_children:
  assumes "i < length cs1" and "j < length cs2"
  shows "size (cs1 ! i) + size (cs2 ! j) < Suc (Suc (size_list size cs1 + size_list size cs2))"
proof -
  have "size (cs1 ! i) < Suc (size_list size cs1)"
    using assms(1) by (rule size_nth_child)
  moreover have "size (cs2 ! j) < Suc (size_list size cs2)"
    using assms(2) by (rule size_nth_child)
  ultimately show ?thesis by linarith
qed

lemma size_taken_child:
  "x \<in> set (take n cs) \<Longrightarrow> size x < Suc (size_list size cs)"
  by (rule size_member_child) (rule in_set_takeD)

function find_common_recurse ::
  "('k::linorder \<Rightarrow> u64) \<Rightarrow> ('k, 'v) node \<Rightarrow> ('k, 'v) node \<Rightarrow> nat
     \<Rightarrow> ('k, 'v) entry option option" where
  "find_common_recurse hf n1 n2 hashPos =
     (if getType n1 > getType n2 then find_common_recurse hf n2 n1 hashPos
      else
        (case n1 of
           Empty \<Rightarrow> Some None
         | ListLeaf first rest count \<Rightarrow> probe_entries hf (first # rest) n2 hashPos
         | InnerLeaf c occupation entries \<Rightarrow>
             if 1 \<le> c \<and> c \<le> 4 then findCommonInLeaf hf occupation entries n2 hashPos
             else None
         | BranchNode occupation1 children1 \<Rightarrow>
             (case n2 of
                BranchNode occupation2 children2 \<Rightarrow>
                  first_match
                    (map (\<lambda>pos.
                            let location1 = num_set_until occupation1 pos;
                                location2 = num_set_until occupation2 pos
                            in
                              if location1 = 0 \<or> \<not> location1 - 1 < length children1 \<or>
                                 location2 = 0 \<or> \<not> location2 - 1 < length children2
                              then None
                              else find_common_recurse hf (children1 ! (location1 - 1))
                                     (children2 ! (location2 - 1)) (hashPos + 1))
                       (match_positions (occupation1 AND occupation2)))
              | _ \<Rightarrow> None)))"
  by pat_completeness auto
termination
  by (relation "measures [\<lambda>(hf, n1, n2, hashPos). size n1 + size n2,
                          \<lambda>(hf, n1, n2, hashPos). if getType n1 > getType n2 then 1 else 0]")
     (auto simp: size_two_children)

declare find_common_recurse.simps [simp del]

section \<open>Copying\<close>

text \<open>
  \<^verbatim>\<open>copy_recurse\<close>. The arm for the empty pointer is \<^verbatim>\<open>assert(false); break;\<close>,
  after which the function ends without a return value. The arm for a list leaf copies
  \<^verbatim>\<open>*iter->next\<close> in a \<^verbatim>\<open>do\<close> loop whose first round runs before any test, so a
  chain of a single node dereferences its null \<^verbatim>\<open>next\<close> pointer; for a longer chain
  every node after the first is copied in turn. Inner leaves are copied as values, and a
  branch node copies its first \<^verbatim>\<open>num_set()\<close> children.
\<close>

fun sequence_options :: "'a option list \<Rightarrow> 'a list option" where
  "sequence_options [] = Some []"
| "sequence_options (None # rs) = None"
| "sequence_options (Some x # rs) =
     (case sequence_options rs of None \<Rightarrow> None | Some xs \<Rightarrow> Some (x # xs))"

function copy_recurse :: "('k, 'v) node \<Rightarrow> ('k, 'v) node option" where
  "copy_recurse Empty = None"
| "copy_recurse (ListLeaf first rest count) =
     (case rest of [] \<Rightarrow> None | next # after \<Rightarrow> Some (ListLeaf first (next # after) count))"
| "copy_recurse (InnerLeaf c occupation entries) =
     (if 1 \<le> c \<and> c \<le> 4 then Some (InnerLeaf c occupation entries) else None)"
| "copy_recurse (BranchNode occupation children) =
     (if length children < num_set occupation then None
      else
        (case sequence_options (map copy_recurse (take (num_set occupation) children)) of
           None \<Rightarrow> None
         | Some children' \<Rightarrow> Some (BranchNode occupation children')))"
  by pat_completeness auto
termination
  by (relation "measure size") (auto simp: size_taken_child)

section \<open>The tree\<close>

text \<open>
  A \<^verbatim>\<open>HighsHashTree\<close> is its root pointer. The public operations hash the key and
  start the recursion at position 0. \<open>insert_tree\<close> (the source's \<^verbatim>\<open>insert\<close>) returns the flag with the new tree.
\<close>

record ('k, 'v) tree =
  root :: "('k, 'v) node"

definition empty_tree :: "('k, 'v) tree" where
  "empty_tree = \<lparr>root = Empty\<rparr>"

definition insert_tree ::
  "('k::linorder \<Rightarrow> u64) \<Rightarrow> ('k, 'v) tree \<Rightarrow> ('k, 'v) entry \<Rightarrow> (bool \<times> ('k, 'v) tree) option" where
  "insert_tree hf t entry =
     (case insert_recurse hf (root t) (hf (fst entry)) 0 entry of
        None \<Rightarrow> None
      | Some (b, n) \<Rightarrow> Some (b, \<lparr>root = n\<rparr>))"

definition erase :: "('k::linorder \<Rightarrow> u64) \<Rightarrow> ('k, 'v) tree \<Rightarrow> 'k \<Rightarrow> ('k, 'v) tree option" where
  "erase hf t key =
     (case erase_recurse hf (root t) (hf key) 0 key of
        None \<Rightarrow> None
      | Some n \<Rightarrow> Some \<lparr>root = n\<rparr>)"

definition find_tree :: "('k::linorder \<Rightarrow> u64) \<Rightarrow> ('k, 'v) tree \<Rightarrow> 'k \<Rightarrow> 'v option option" where
  "find_tree hf t key = find_recurse (root t) (hf key) 0 key"

definition contains :: "('k::linorder \<Rightarrow> u64) \<Rightarrow> ('k, 'v) tree \<Rightarrow> 'k \<Rightarrow> bool option" where
  "contains hf t key = map_option (\<lambda>r. r \<noteq> None) (find_recurse (root t) (hf key) 0 key)"

definition find_common ::
  "('k::linorder \<Rightarrow> u64) \<Rightarrow> ('k, 'v) tree \<Rightarrow> ('k, 'v) tree \<Rightarrow> ('k, 'v) entry option option" where
  "find_common hf t other = find_common_recurse hf (root t) (root other) 0"

definition copy_tree :: "('k, 'v) tree \<Rightarrow> ('k, 'v) tree option" where
  "copy_tree other = map_option (\<lambda>n. \<lparr>root = n\<rparr>) (copy_recurse (root other))"

text \<open>Sequences of calls of \<open>insert\<close> and of \<open>erase\<close> on one tree.\<close>

fun insert_all ::
  "('k::linorder \<Rightarrow> u64) \<Rightarrow> ('k, 'v) tree \<Rightarrow> ('k, 'v) entry list \<Rightarrow> ('k, 'v) tree option" where
  "insert_all hf t [] = Some t"
| "insert_all hf t (e # es) =
     (case insert_tree hf t e of None \<Rightarrow> None | Some (b, t') \<Rightarrow> insert_all hf t' es)"

fun erase_all ::
  "('k::linorder \<Rightarrow> u64) \<Rightarrow> ('k, 'v) tree \<Rightarrow> 'k list \<Rightarrow> ('k, 'v) tree option" where
  "erase_all hf t [] = Some t"
| "erase_all hf t (k # ks) =
     (case erase hf t k of None \<Rightarrow> None | Some t' \<Rightarrow> erase_all hf t' ks)"

section \<open>Predicates on nodes\<close>

text \<open>
  An entry array cannot hold more entries than its capacity: the property of a node that
  every inner leaf below it respects the capacity of its size class.
\<close>

fun within_capacity :: "('k, 'v) node \<Rightarrow> bool" where
  "within_capacity Empty = True"
| "within_capacity (ListLeaf first rest count) = True"
| "within_capacity (InnerLeaf c occupation entries) = (length entries \<le> capacity c)"
| "within_capacity (BranchNode occupation children) = list_all within_capacity children"

text \<open>The scan of \<^verbatim>\<open>find_entry\<close> stops at an entry with the given key.\<close>

definition key_found :: "'k::linorder \<Rightarrow> ('k, 'v) entry list \<Rightarrow> bool" where
  "key_found k es \<longleftrightarrow> first_geq k es < length es \<and> fst (es ! first_geq k es) = k"

text \<open>
  The node holds the key where the operations look for it: following the chunks of the
  hash from the node at this position leads to a list leaf whose chain has the key, or to
  an inner leaf within its capacity whose occupation bit for the chunk is set and whose
  scan stops at the key.
\<close>

function holds_key :: "('k::linorder, 'v) node \<Rightarrow> u64 \<Rightarrow> nat \<Rightarrow> 'k \<Rightarrow> bool" where
  "holds_key Empty hash hashPos key = False"
| "holds_key (ListLeaf first rest count) hash hashPos key =
     list_ex (\<lambda>e. fst e = key) (first # rest)"
| "holds_key (InnerLeaf c occupation entries) hash hashPos key =
     (hashPos < kMaxDepth \<and> 1 \<le> c \<and> c \<le> 4 \<and> length entries \<le> capacity c \<and>
      occ_test occupation (get_hash_chunk hash hashPos) \<and> key_found key entries)"
| "holds_key (BranchNode occupation children) hash hashPos key =
     (let location = num_set_until occupation (get_hash_chunk hash hashPos) in
      if hashPos < kMaxDepth \<and> occ_test occupation (get_hash_chunk hash hashPos) \<and>
         location \<noteq> 0 \<and> location - 1 < length children
      then holds_key (children ! (location - 1)) hash (hashPos + 1) key
      else False)"
  by pat_completeness auto
termination
  by (relation "measure (\<lambda>(n, hash, hashPos, key). size n)") (auto simp: size_nth_child)

section \<open>Hash functions and keys of the scenarios\<close>

text \<open>
  The claims below are tried on concrete keys. Thirty 64-bit keys, hashed by the identity,
  whose hashes share chunk 0 (it is 0) and differ in chunk 1; a hash of natural-number
  keys under which the keys other than 31 collide on all 64 bits and key 31 differs from
  them in the last chunk (bits 60 to 63) only; and a hash under which all keys collide.
  Further, hashed by the identity again: thirty 64-bit keys whose chunks 0 and 1 are 5
  and 0 and which differ in chunk 2, and thirty 64-bit keys whose chunk 0 is 1 and which
  differ in chunk 1.
\<close>

definition shared_chunk_keys :: "u64 list" where
  "shared_chunk_keys =
     [64, 128, 192, 256, 320, 384, 448, 512, 576, 640,
      704, 768, 832, 896, 960, 1024, 1088, 1152, 1216, 1280,
      1344, 1408, 1472, 1536, 1600, 1664, 1728, 1792, 1856, 1920]"

definition top_chunk_hash :: "nat \<Rightarrow> u64" where
  "top_chunk_hash k = (if k = 31 then push_bit 60 1 else 0)"

definition constant_hash :: "nat \<Rightarrow> u64" where
  "constant_hash k = 0"

definition stale_mask_keys :: "u64 list" where
  "stale_mask_keys =
     [5, 4101, 8197, 12293, 16389, 20485, 24581, 28677,
      32773, 36869, 40965, 45061, 49157, 53253, 57349, 61445,
      65541, 69637, 73733, 77829, 81925, 86021, 90117, 94213,
      98309, 102405, 106501, 110597, 114693, 118789]"

definition chunk_one_keys :: "u64 list" where
  "chunk_one_keys =
     [65, 129, 193, 257, 321, 385, 449, 513,
      577, 641, 705, 769, 833, 897, 961, 1025,
      1089, 1153, 1217, 1281, 1345, 1409, 1473, 1537,
      1601, 1665, 1729, 1793, 1857, 1921]"

section \<open>Merging the children of a branch node\<close>

text \<open>
  What \<^verbatim>\<open>removeChildFromBranchNode\<close> looks at. A list leaf is counted with its
  \<^verbatim>\<open>count\<close> field, which is meant to be the length of its chain; the entries that
  \<^verbatim>\<open>mergeIntoLeaf\<close> takes from a child; the three tests that guard the merge (at
  most five children by the capacity of class 1, the sum of the estimates, the sum of
  the entry counts); and the size class chosen by \<^verbatim>\<open>(childEntries + 1) / 8\<close>.
\<close>

fun chain_counted :: "('k, 'v) node \<Rightarrow> bool" where
  "chain_counted (ListLeaf first rest count) = (count = 1 + int (length rest))"
| "chain_counted Empty = True"
| "chain_counted (InnerLeaf c occupation entries) = True"
| "chain_counted (BranchNode occupation children) = True"

fun merged_entries :: "('k, 'v) node \<Rightarrow> ('k, 'v) entry list" where
  "merged_entries (ListLeaf first rest count) = first # rest"
| "merged_entries (InnerLeaf c occupation entries) = (if 1 \<le> c \<and> c \<le> 4 then entries else [])"
| "merged_entries Empty = []"
| "merged_entries (BranchNode occupation children) = []"

definition merge_gates :: "u64 \<Rightarrow> ('k, 'v) node list \<Rightarrow> bool" where
  "merge_gates occupation children \<longleftrightarrow>
     num_set occupation * capacity 1 \<le> kLeafBurstThreshold \<and>
     estimate_loop children 0 < kLeafBurstThreshold \<and>
     sum_list (map numEntries children) < int kLeafBurstThreshold"

definition fitting_class :: "int \<Rightarrow> nat" where
  "fitting_class n = nat ((n + 1) div 8) + 1"

section \<open>Well-formed trees\<close>

text \<open>
  The invariants of the data model, for a node at a hash position under a hash function.
  The bits of an occupation mask in the order of the child array (highest bit first); the
  entries stored below a node and their keys. A list leaf is at position \<open>kMaxDepth\<close>
  and its count is the length of its chain. An inner leaf is above that position, of a
  class from 1 to 4, not empty and within its capacity, strictly sorted by key, and has
  exactly the occupation bits of the chunks of its entries. A branch node is above that
  position and has one child per occupation bit; no child is empty, every child is well
  formed at the next position, and the entries below the child of a bit have that bit's
  value as their chunk.
\<close>

definition set_bits_desc :: "u64 \<Rightarrow> nat list" where
  "set_bits_desc w = filter (bit w) (rev [0..<64])"

fun entries_of :: "('k, 'v) node \<Rightarrow> ('k, 'v) entry list" where
  "entries_of Empty = []"
| "entries_of (ListLeaf first rest count) = first # rest"
| "entries_of (InnerLeaf c occupation entries) = entries"
| "entries_of (BranchNode occupation children) = concat (map entries_of children)"

definition keys_of :: "('k, 'v) node \<Rightarrow> 'k set" where
  "keys_of n = fst ` set (entries_of n)"

fun well_formed :: "('k::linorder \<Rightarrow> u64) \<Rightarrow> nat \<Rightarrow> ('k, 'v) node \<Rightarrow> bool" where
  "well_formed hf d Empty = True"
| "well_formed hf d (ListLeaf first rest count) =
     (d = kMaxDepth \<and> count = 1 + int (length rest))"
| "well_formed hf d (InnerLeaf c occupation entries) =
     (d < kMaxDepth \<and> 1 \<le> c \<and> c \<le> 4 \<and> entries \<noteq> [] \<and> length entries \<le> capacity c \<and>
      sorted_wrt (<) (map fst entries) \<and>
      list_all (\<lambda>h. bit occupation h \<longleftrightarrow>
                  list_ex (\<lambda>e. get_hash_chunk (hf (fst e)) d = h) entries) [0..<64])"
| "well_formed hf d (BranchNode occupation children) =
     (d < kMaxDepth \<and>
      list_all2 (\<lambda>h child. child \<noteq> Empty \<and> well_formed hf (d + 1) child \<and>
                   list_all (\<lambda>e. get_hash_chunk (hf (fst e)) d = h) (entries_of child))
        (set_bits_desc occupation) children)"

text \<open>
  What \<^verbatim>\<open>find_common\<close> has to return for two nodes: an entry of one of them whose
  key is a key of both, or nothing when they share no key.
\<close>

definition common_entry_result ::
  "('k, 'v) node \<Rightarrow> ('k, 'v) node \<Rightarrow> ('k, 'v) entry option \<Rightarrow> bool" where
  "common_entry_result n1 n2 r \<longleftrightarrow>
     (case r of
        None \<Rightarrow> keys_of n1 \<inter> keys_of n2 = {}
      | Some e \<Rightarrow> e \<in> set (entries_of n1) \<union> set (entries_of n2) \<and>
                  fst e \<in> keys_of n1 \<and> fst e \<in> keys_of n2)"

section \<open>Claims about occupation masks\<close>

text \<open>
  Claim C5, as stated: for every mask and every position \<open>p \<le> 63\<close>,
  \<open>num_set_after\<close> counts the set bits at positions strictly greater than \<open>p\<close>.
  This fails for the mask 1 and position 0: bit 0 is the only set bit, no bit above
  position 0 is set, and the function returns 1.
\<close>

theorem C5_num_set_after_counterexample:
  "num_set_after 1 0 \<noteq> card {i. 0 < i \<and> bit (1 :: u64) i}"
proof -
  have "card {i. 0 < i \<and> bit (1 :: u64) i} = 0"
    by (auto simp: bit_simps)
  moreover have "num_set_after 1 0 = 1"
    by code_simp
  ultimately show ?thesis by (simp only:)
qed

text \<open>
  Claim C5, amended: for every mask and every position \<open>p \<le> 63\<close>,
  \<open>num_set_after\<close> returns the number of set bits at positions less than or equal
  to \<open>p\<close> (the children stored after the slot of chunk \<open>p\<close>, since children are
  kept in descending bit order).
\<close>

theorem C5_num_set_after_counts_lower:
  "p \<le> 63 \<Longrightarrow> num_set_after w p = card {i. i \<le> p \<and> bit w i}"
  by (rule num_set_after_card)

theorem C5_num_set_after_counts_lower_witness:
  "(5::nat) \<le> 63 \<and> num_set_after 44 5 = card {i. i \<le> 5 \<and> bit (44 :: u64) i}"
  using C5_num_set_after_counts_lower [of 5 44] by simp

section \<open>Facts about inner leaves\<close>

lemma get_hash_chunk_lt: "get_hash_chunk h d < 64"
proof -
  have "drop_bit (d * kBitsPerLevel) h AND 63 \<le> (63 :: u64)"
    by (rule word_and_le1)
  then have "unat (drop_bit (d * kBitsPerLevel) h AND 63) \<le> unat (63 :: u64)"
    by (simp only: word_le_nat_alt)
  then show ?thesis by (simp add: get_hash_chunk_def)
qed

lemma occ_test_occ_set: "c < 64 \<Longrightarrow> occ_test (occ_set w c) c"
  by (simp add: occ_test_iff bit_occ_set)

lemma key_found_after_prefix:
  "\<forall>x \<in> set pre. fst x \<le> k \<Longrightarrow> key_found k (pre @ (k, v) # rest)"
  by (induction pre) (auto simp: key_found_def)

lemma take_first_geq_below: "x \<in> set (take (first_geq k es) es) \<Longrightarrow> fst x < k"
  by (induction es) (auto split: if_splits)

lemma take_first_gt_below: "x \<in> set (take (first_gt k es) es) \<Longrightarrow> fst x \<le> k"
  by (induction es) (auto split: if_splits)

lemma first_geq_le_length: "first_geq k es \<le> length es"
  by (induction es) auto

lemma find_entry_key_found:
  "find_entry occ es h d k = Some (Some v) \<longleftrightarrow>
     occ_test occ (get_hash_chunk h d) \<and> key_found k es \<and> v = snd (es ! first_geq k es)"
  using first_geq_le_length [of k es]
  by (auto simp: find_entry_def key_found_def Let_def)

lemma insert_entry_key_found:
  assumes "insert_entry cap occ es h d e = Some (b, occ', es')"
  shows "occ_test occ' (get_hash_chunk h d) \<and> key_found (fst e) es'"
proof -
  obtain k v where e: "e = (k, v)" by (cases e)
  have pre1: "\<forall>x \<in> set (take (first_geq k es) es). fst x \<le> k"
    using take_first_geq_below [of _ k es] by (auto simp: less_imp_le)
  have pre2: "\<forall>x \<in> set (take (first_gt k es) es). fst x \<le> k"
    using take_first_gt_below [of _ k es] by auto
  show ?thesis
  proof (cases "occ_test occ (get_hash_chunk h d)")
    case True
    with assms e pre1 show ?thesis
      using key_found_after_prefix [of "take (first_geq k es) es" k v "drop (first_geq k es) es"]
            key_found_after_prefix [of "take (first_geq k es) es" k v "[]"]
            first_geq_le_length [of k es]
      by (auto simp: insert_entry_def Let_def key_found_def split: if_splits)
  next
    case False
    with assms e pre2 show ?thesis
      using key_found_after_prefix [of "take (first_gt k es) es" k v "drop (first_gt k es) es"]
      by (auto simp: insert_entry_def Let_def occ_test_occ_set get_hash_chunk_lt split: if_splits)
  qed
qed

lemma insert_entry_length:
  "insert_entry cap occ es h d e = Some (b, occ', es') \<Longrightarrow>
     length es < cap \<and> length es' \<le> Suc (length es) \<and> length es \<le> length es' \<and> es' \<noteq> []"
  using first_geq_le_length [of "fst e" es]
  by (auto simp: insert_entry_def Let_def split: if_splits)

lemma insert_entry_present:
  assumes "occ_test occ (get_hash_chunk h d)" and "key_found k es" and "length es < cap"
  shows "insert_entry cap occ es h d (k, v) = Some (False, occ, es)"
  using assms by (auto simp: insert_entry_def Let_def key_found_def)


lemma insert_into_leaf_present:
  assumes "find_entry occ es h d k = Some (Some v)" and "length es \<le> capacity c"
  shows "insert_into_leaf hf c occ es h d (k, v') = Some (False, InnerLeaf c occ es)"
proof (cases "length es = capacity c")
  case True
  with assms show ?thesis by (simp add: insert_into_leaf_def)
next
  case False
  with assms have "length es < capacity c" by simp
  moreover from assms have "occ_test occ (get_hash_chunk h d)" "key_found k es"
    by (simp_all add: find_entry_key_found)
  ultimately have "insert_entry (capacity c) occ es h d (k, v') = Some (False, occ, es)"
    by (simp add: insert_entry_present)
  with False show ?thesis by (simp add: insert_into_leaf_def)
qed

section \<open>Facts about ranks in occupation masks\<close>

lemma num_set_until_card: "num_set_until w c = card {i. c \<le> i \<and> bit w i}"
proof -
  have "{i. c \<le> i \<and> bit w i} = (\<lambda>i. c + i) ` {i. bit (drop_bit c w) i}"
  proof (rule set_eqI, rule iffI)
    fix i assume "i \<in> {i. c \<le> i \<and> bit w i}"
    then have "i - c \<in> {i. bit (drop_bit c w) i}" "i = c + (i - c)"
      by (auto simp: bit_simps)
    then show "i \<in> (\<lambda>i. c + i) ` {i. bit (drop_bit c w) i}" by (rule_tac image_eqI)
  next
    fix i assume "i \<in> (\<lambda>i. c + i) ` {i. bit (drop_bit c w) i}"
    then show "i \<in> {i. c \<le> i \<and> bit w i}" by (auto simp: bit_simps)
  qed
  moreover have "inj_on (\<lambda>i. c + i) {i. bit (drop_bit c w) i}"
    by (simp add: inj_on_def)
  ultimately show ?thesis
    by (simp add: num_set_until_def popcnt_card card_image)
qed

lemma finite_bits_from: "finite {i. c \<le> i \<and> bit w i}" for w :: u64
  by (rule finite_subset [OF _ finite_bits [of w]]) auto

lemma num_set_until_pos: "bit w c \<Longrightarrow> 0 < num_set_until w c"
proof -
  assume "bit w c"
  then have "c \<in> {i. c \<le> i \<and> bit w i}" by simp
  then have "{i. c \<le> i \<and> bit w i} \<noteq> {}" by blast
  then show ?thesis
    by (simp add: num_set_until_card card_gt_0_iff finite_bits_from)
qed

lemma num_set_until_le: "num_set_until w c \<le> num_set w"
  unfolding num_set_until_card num_set_def popcnt_card
  by (rule card_mono [OF finite_bits]) auto

lemma num_set_until_occ_set:
  assumes "\<not> bit w c" and "c < 64"
  shows "num_set_until (occ_set w c) c = Suc (num_set_until w c)"
proof -
  have "{i. c \<le> i \<and> bit (occ_set w c) i} = insert c {i. c \<le> i \<and> bit w i}"
    using assms by (auto simp: bit_occ_set)
  moreover have "c \<notin> {i. c \<le> i \<and> bit w i}" using assms by simp
  ultimately show ?thesis
    by (simp add: num_set_until_card finite_bits_from del: insert_iff)
qed

lemma key_found_insert_geq:
  "key_found k es \<Longrightarrow> fst e \<noteq> k \<Longrightarrow>
     key_found k (take (first_geq (fst e) es) es @ e # drop (first_geq (fst e) es) es)"
  by (induction es) (auto simp: key_found_def split: if_splits)

lemma key_found_insert_gt:
  "key_found k es \<Longrightarrow>
     key_found k (take (first_gt (fst e) es) es @ e # drop (first_gt (fst e) es) es)"
  by (induction es) (auto simp: key_found_def split: if_splits)


section \<open>Keys held on their hash path\<close>

lemma insert_recurse_holds_key:
  "holds_key n h d k \<Longrightarrow> insert_recurse hf n h d (k, v') = Some (False, n)"
proof (induction n h d k rule: holds_key.induct)
  case (1 hash hashPos key)
  then show ?case by simp
next
  case (2 first rest count hash hashPos key)
  then show ?case by simp
next
  case (3 c occupation entries hash hashPos key)
  then have d: "\<not> hashPos \<ge> kMaxDepth" and c: "1 \<le> c" "c \<le> 4"
    and len: "length entries \<le> capacity c"
    and t: "occ_test occupation (get_hash_chunk hash hashPos)" and kf: "key_found key entries"
    by auto
  from t kf have f: "find_entry occupation entries hash hashPos key
      = Some (Some (snd (entries ! first_geq key entries)))"
    by (simp add: find_entry_key_found)
  show ?case
  proof (cases "c = 4")
    case False
    with c have "c = 1 \<or> c = 2 \<or> c = 3" by arith
    with d f len show ?thesis
      by (simp add: insert_recurse.simps(3) insert_into_leaf_present)
  next
    case True
    show ?thesis
    proof (cases "length entries < capacity 4")
      case lt: True
      with t kf have "insert_entry (capacity 4) occupation entries hash hashPos (key, v')
                    = Some (False, occupation, entries)"
        by (simp add: insert_entry_present)
      with True d lt show ?thesis by (simp add: insert_recurse.simps(3))
    next
      case False
      with len True have "length entries = capacity 4" by simp
      with True d f show ?thesis by (simp add: insert_recurse.simps(3))
    qed
  qed
next
  case (4 occupation children hash hashPos key)
  let ?chunk = "get_hash_chunk hash hashPos"
  let ?loc = "num_set_until occupation ?chunk"
  from "4.prems" have d: "\<not> hashPos \<ge> kMaxDepth" "hashPos < kMaxDepth"
    and t: "occ_test occupation ?chunk"
    and loc: "?loc \<noteq> 0" "?loc - 1 < length children"
    and f: "holds_key (children ! (?loc - 1)) hash (hashPos + 1) key"
    by (auto simp: Let_def split: if_splits)
  with "4.IH" [OF refl]
  have "insert_recurse hf (children ! (?loc - 1)) hash (hashPos + 1) (key, v')
        = Some (False, children ! (?loc - 1))"
    by simp
  with d t loc show ?case by (simp add: Let_def)
qed


lemma capacity_eq: "capacity c = 6 + 8 * (c - 1)"
  by (simp add: capacity_def kMinLeafSize_def kLeafBurstThreshold_def)

lemma occ_test_occ_set_mono: "occ_test w x \<Longrightarrow> occ_test (occ_set w c) x"
  by (simp add: occ_test_iff bit_occ_set)

lemma insert_entry_preserves_found:
  assumes "insert_entry cap occ es h2 d2 e2 = Some (b, occ', es')"
    and "occ_test occ x" and "key_found k es"
  shows "occ_test occ' x \<and> key_found k es'"
proof (cases "occ_test occ (get_hash_chunk h2 d2)")
  case False
  with assms show ?thesis
    using key_found_insert_gt [of k es e2]
    by (auto simp: insert_entry_def Let_def occ_test_occ_set_mono split: if_splits)
next
  case True
  show ?thesis
  proof (cases "fst e2 = k")
    case k: True
    with assms True show ?thesis
      by (auto simp: insert_entry_def Let_def key_found_def split: if_splits)
  next
    case False
    with assms True show ?thesis
      using key_found_insert_geq [of k es e2]
      by (auto simp: insert_entry_def Let_def split: if_splits)
  qed
qed

lemma insert_into_child_holds:
  assumes "insert_into_child n h2 d e2 = Some n'" and "holds_key n h d k"
  shows "holds_key n' h d k"
proof (cases n)
  case (InnerLeaf c occ es)
  with assms obtain b occ' es' where
    i: "insert_entry (capacity c) occ es h2 d e2 = Some (b, occ', es')" and n': "n' = InnerLeaf c occ' es'"
    by (auto split: if_splits option.splits)
  from assms(2) InnerLeaf have h: "d < kMaxDepth" "1 \<le> c" "c \<le> 4"
    "occ_test occ (get_hash_chunk h d)" "key_found k es"
    by auto
  from insert_entry_preserves_found [OF i h(4) h(5)] insert_entry_length [OF i] h n'
  show ?thesis by auto
qed (use assms in auto)

lemma distribute_holds:
  "distribute hf occ d cs es = Some cs' \<Longrightarrow> p < length cs \<Longrightarrow> holds_key (cs ! p) h (d + 1) k \<Longrightarrow>
     length cs' = length cs \<and> holds_key (cs' ! p) h (d + 1) k"
proof (induction es arbitrary: cs)
  case Nil
  then show ?case by simp
next
  case (Cons e es)
  let ?n = "num_set_until occ (get_hash_chunk (hf (fst e)) d)"
  from Cons.prems(1) obtain child where
    n: "?n \<noteq> 0" "?n - 1 < length cs"
    and c: "insert_into_child (cs ! (?n - 1)) (hf (fst e)) (d + 1) e = Some child"
    and r: "distribute hf occ d (cs[?n - 1 := child]) es = Some cs'"
    by (auto simp: Let_def split: if_splits option.splits)
  have "holds_key (cs[?n - 1 := child] ! p) h (d + 1) k"
  proof (cases "?n - 1 = p")
    case True
    with c Cons.prems(2,3) show ?thesis
      using insert_into_child_holds [of "cs ! p" "hf (fst e)" "d + 1" e child h k] by simp
  next
    case False
    with Cons.prems(3) show ?thesis by simp
  qed
  with Cons.IH [OF r] Cons.prems(2) show ?case by simp
qed

lemma funnel_loop_holds:
  "funnel_loop cs p es = Some cs' \<Longrightarrow> p < length cs \<Longrightarrow> holds_key (cs ! p) h d k \<Longrightarrow>
     length cs' = length cs \<and> holds_key (cs' ! p) h d k"
proof (induction es arbitrary: cs)
  case Nil
  then show ?case by simp
next
  case (Cons e es)
  show ?case
  proof (cases "cs ! p")
    case (ListLeaf first rest count)
    with Cons.prems have r: "funnel_loop (cs[p := ListLeaf e (first # rest) (count + 1)]) p es = Some cs'"
      and "holds_key (cs[p := ListLeaf e (first # rest) (count + 1)] ! p) h d k"
      by auto
    with Cons.IH [OF r] Cons.prems(2) show ?thesis by simp
  qed (use Cons.prems in auto)
qed

lemma insert_into_leaf_holds:
  assumes "insert_into_leaf hf c occ es h d e = Some (b, n')" and "1 \<le> c" "c \<le> 3" "d < kMaxDepth"
  shows "holds_key n' h d (fst e)"
proof -
  have cap: "capacity c \<le> capacity (c + 1)" by (simp add: capacity_eq)
  show ?thesis
  proof (cases "length es = capacity c")
    case False
    with assms obtain occ' es' where
      i: "insert_entry (capacity c) occ es h d e = Some (b, occ', es')" and n': "n' = InnerLeaf c occ' es'"
      by (auto simp: insert_into_leaf_def split: option.splits)
    from insert_entry_key_found [OF i] insert_entry_length [OF i] n' assms(2-4)
    show ?thesis by auto
  next
    case True
    show ?thesis
    proof (cases "find_entry occ es h d (fst e)")
      case None
      with assms True show ?thesis by (simp add: insert_into_leaf_def)
    next
      case (Some r)
      show ?thesis
      proof (cases r)
        case (Some v)
        with \<open>find_entry occ es h d (fst e) = Some r\<close>
        have fe: "find_entry occ es h d (fst e) = Some (Some v)" by simp
        with assms True have n': "n' = InnerLeaf c occ es"
          by (simp add: insert_into_leaf_def)
        from fe have "occ_test occ (get_hash_chunk h d)" "key_found (fst e) es"
          by (simp_all add: find_entry_key_found)
        with n' True assms(2-4) show ?thesis by simp
      next
        case None
        with \<open>find_entry occ es h d (fst e) = Some r\<close> assms True obtain occ' es' occ'' es'' where
          i: "insert_entry (capacity (c + 1)) occ' es' h d e = Some (b, occ'', es'')"
          and n': "n' = InnerLeaf (c + 1) occ'' es''"
          by (auto simp: insert_into_leaf_def split: option.splits)
        from insert_entry_key_found [OF i] insert_entry_length [OF i] n' assms(2-4)
        show ?thesis by auto
      qed
    qed
  qed
qed


lemma insert_into_child_result_holds:
  assumes "insert_into_child n h d e = Some n'" and "d < kMaxDepth"
  shows "holds_key n' h d (fst e)"
proof (cases n)
  case (InnerLeaf c occ es)
  with assms obtain b occ' es' where
    i: "insert_entry (capacity c) occ es h d e = Some (b, occ', es')"
    and n': "n' = InnerLeaf c occ' es'" and c: "1 \<le> c" "c \<le> 4"
    by (auto split: if_splits option.splits)
  from insert_entry_key_found [OF i] insert_entry_length [OF i] n' c assms(2)
  show ?thesis by auto
qed (use assms in auto)

lemma burst_list_leaves_holds:
  assumes "burst_list_leaves occ h d es e = Some br" and "d < kMaxDepth"
    and "occ_test occ (get_hash_chunk h d)"
  shows "holds_key br h d (fst e)"
proof -
  let ?n = "num_set_until occ (get_hash_chunk h d)"
  let ?cs = "(replicate (num_set occ) Empty)[?n - 1 := ListLeaf e [] 1]"
  from assms(1) obtain cs' where
    n: "?n \<noteq> 0" "?n - 1 < num_set occ"
    and f: "funnel_loop ?cs (?n - 1) es = Some cs'"
    and br: "br = BranchNode occ cs'"
    by (auto simp: burst_list_leaves_def Let_def split: if_splits option.splits)
  have "?n - 1 < length ?cs" using n by simp
  moreover have "holds_key (?cs ! (?n - 1)) h (d + 1) (fst e)" using n by simp
  ultimately have "length cs' = length ?cs \<and> holds_key (cs' ! (?n - 1)) h (d + 1) (fst e)"
    using f by (rule funnel_loop_holds [rotated])
  with n br assms(2,3) show ?thesis by (simp add: Let_def)
qed

lemma burst_small_holds:
  assumes "burst_small hf occ h d es e = Some br" and "d + 1 < kMaxDepth"
    and "occ_test occ (get_hash_chunk h d)"
  shows "holds_key br h d (fst e)"
proof -
  let ?n = "num_set_until occ (get_hash_chunk h d)"
  let ?cs = "replicate (num_set occ) (InnerLeaf 1 0 [])"
  from assms(1) obtain child cs' where
    n: "?n \<noteq> 0" "?n - 1 < num_set occ"
    and c: "insert_into_child (?cs ! (?n - 1)) h (d + 1) e = Some child"
    and f: "distribute hf occ d (?cs[?n - 1 := child]) es = Some cs'"
    and br: "br = BranchNode occ cs'"
    by (auto simp: burst_small_def Let_def split: if_splits option.splits)
  have "?n - 1 < length (?cs[?n - 1 := child])" using n by simp
  moreover have "holds_key ((?cs[?n - 1 := child]) ! (?n - 1)) h (d + 1) (fst e)"
    using n insert_into_child_result_holds [OF c assms(2)] by simp
  ultimately have "length cs' = length (?cs[?n - 1 := child]) \<and>
      holds_key (cs' ! (?n - 1)) h (d + 1) (fst e)"
    using f by (rule distribute_holds [rotated])
  with n br assms(2,3) show ?thesis by (simp add: Let_def)
qed


lemma find_recurse_holds_key:
  "within_capacity n \<Longrightarrow> find_recurse n h d k = Some (Some v) \<Longrightarrow> holds_key n h d k"
proof (induction n h d k rule: find_recurse.induct)
  case (1 hash hashPos key)
  then show ?case by simp
next
  case (2 first rest count hash hashPos key)
  then have "find (\<lambda>e. fst e = key) (first # rest) \<noteq> None"
    by auto
  then have "list_ex (\<lambda>e. fst e = key) (first # rest)"
    unfolding find_None_iff list_ex_iff by blast
  then show ?case by simp
next
  case (3 c occupation entries hash hashPos key)
  then show ?case
    by (auto simp: find_entry_key_found split: if_splits)
next
  case (4 occupation children hash hashPos key)
  let ?chunk = "get_hash_chunk hash hashPos"
  let ?loc = "num_set_until occupation ?chunk"
  from "4.prems" have d: "\<not> hashPos \<ge> kMaxDepth"
    and t: "occ_test occupation ?chunk"
    and loc: "\<not> (?loc = 0 \<or> \<not> ?loc - 1 < length children)"
    and f: "find_recurse (children ! (?loc - 1)) hash (hashPos + 1) key = Some (Some v)"
    by (auto simp: Let_def split: if_splits)
  from loc "4.prems"(1) have "within_capacity (children ! (?loc - 1))"
    by (simp add: list_all_length)
  with "4.IH" d t loc f have "holds_key (children ! (?loc - 1)) hash (hashPos + 1) key"
    by simp
  with d t loc show ?case by (simp add: Let_def)
qed

lemma insert_recurse_result_holds:
  "insert_recurse hf n h d e = Some (b, n') \<Longrightarrow> holds_key n' h d (fst e)"
proof (induction hf n h d e arbitrary: b n' rule: insert_recurse.induct)
  case (1 hf hash hashPos entry)
  show ?case
  proof (cases "hashPos = kMaxDepth")
    case True
    with "1.prems" show ?thesis by auto
  next
    case False
    with "1.prems" obtain b' occ es where
      d: "hashPos < kMaxDepth"
      and i: "insert_entry (capacity 1) 0 [] hash hashPos entry = Some (b', occ, es)"
      and n': "n' = InnerLeaf 1 occ es"
      by (auto split: if_splits option.splits)
    from insert_entry_key_found [OF i] insert_entry_length [OF i] n' d
    show ?thesis by auto
  qed
next
  case (2 hf first rest count hash hashPos entry)
  then show ?case by (auto split: if_splits)
next
  case (3 hf c occupation entries hash hashPos entry)
  let ?chunk = "get_hash_chunk hash hashPos"
  let ?occ = "occ_set occupation ?chunk"
  note unf = insert_recurse.simps(3) [of hf c occupation entries hash hashPos entry]
  note p = "3.prems" [unfolded unf]
  from p have d: "hashPos < kMaxDepth" "\<not> kMaxDepth \<le> hashPos"
    by (auto split: if_splits)
  have t: "occ_test ?occ ?chunk"
    by (simp add: occ_test_occ_set get_hash_chunk_lt)
  consider (small) "c = 1 \<or> c = 2 \<or> c = 3"
    | (room) "c = 4" "length entries < capacity 4"
    | (full) "c = 4" "length entries = capacity 4"
    using p d by (auto split: if_splits)
  then show ?case
  proof cases
    case small
    with p d have "insert_into_leaf hf c occupation entries hash hashPos entry = Some (b, n')"
      by simp
    with small d show ?thesis by (auto intro: insert_into_leaf_holds)
  next
    case room
    with p d obtain occ' es' where
      i: "insert_entry (capacity 4) occupation entries hash hashPos entry = Some (b, occ', es')"
      and n': "n' = InnerLeaf 4 occ' es'"
      by (auto split: option.splits)
    from insert_entry_key_found [OF i] insert_entry_length [OF i] n' d
    show ?thesis by auto
  next
    case full
    note c4 = \<open>c = 4\<close> and len = \<open>length entries = capacity 4\<close>
    from c4 have nsmall: "\<not> (c = 1 \<or> c = 2 \<or> c = 3)" "\<not> c \<noteq> 4" by simp_all
    from len have nlen: "\<not> length entries < capacity 4" "\<not> capacity 4 < length entries"
      by simp_all
    show ?thesis
    proof (cases "find_entry occupation entries hash hashPos (fst entry)")
      case None
      with p d c4 len show ?thesis by simp
    next
      case (Some r)
      show ?thesis
      proof (cases r)
        case (Some v)
        with \<open>find_entry occupation entries hash hashPos (fst entry) = Some r\<close>
        have fe: "find_entry occupation entries hash hashPos (fst entry) = Some (Some v)" by simp
        with p d c4 len have n': "n' = InnerLeaf 4 occupation entries" by simp
        from fe have "occ_test occupation ?chunk" "key_found (fst entry) entries"
          by (simp_all add: find_entry_key_found)
        with n' len d show ?thesis by simp
      next
        case None
        with \<open>find_entry occupation entries hash hashPos (fst entry) = Some r\<close>
        have fe: "find_entry occupation entries hash hashPos (fst entry) = Some None" by simp
        show ?thesis
        proof (cases "hashPos + 1 = kMaxDepth")
          case True
          with p d c4 len fe obtain br where
            "burst_list_leaves ?occ hash hashPos entries entry = Some br" "n' = br"
            by (auto simp: Let_def split: option.splits)
          with d t show ?thesis by (auto intro: burst_list_leaves_holds)
        next
          case deeper: False
          with d have d1: "hashPos + 1 < kMaxDepth" by simp
          show ?thesis
          proof (cases "1 < num_set ?occ")
            case many: True
            show ?thesis
            proof (cases "2 + int (length entries) - int (num_set ?occ) \<le> int (capacity 1)")
              case True
              with p d c4 len fe deeper many obtain br where
                "burst_small hf ?occ hash hashPos entries entry = Some br" "n' = br"
                by (auto simp: Let_def split: option.splits)
              with d1 t show ?thesis by (auto intro: burst_small_holds)
            next
              case False
              let ?pos = "num_set_until ?occ ?chunk - 1"
              from p d c4 len fe deeper many False obtain children child where
                bs: "burst_sized hf ?occ hash hashPos entries = Some children"
                and pos: "?pos < length children"
                and r: "insert_recurse hf (children ! ?pos) hash (hashPos + 1) entry = Some (b, child)"
                and n': "n' = BranchNode ?occ (children[?pos := child])"
                by (auto simp: Let_def split: option.splits if_splits)
              have "holds_key child hash (hashPos + 1) (fst entry)"
                using "3.IH"(1) [OF d(2) nsmall nlen fe refl refl refl refl deeper many False bs refl _ r]
                  pos by simp
              moreover have "num_set_until ?occ ?chunk \<noteq> 0"
                using t num_set_until_pos [of ?occ ?chunk] by (simp add: occ_test_iff)
              ultimately show ?thesis
                using n' pos d t by (simp add: Let_def)
            qed
          next
            case one: False
            from p d c4 len fe deeper one obtain child where
              r: "insert_recurse hf (InnerLeaf c occupation entries) hash (hashPos + 1) entry
                  = Some (b, child)"
              and n': "n' = BranchNode ?occ [child]"
              by (auto simp: Let_def split: option.splits if_splits)
            have "holds_key child hash (hashPos + 1) (fst entry)"
              using "3.IH"(2) [OF d(2) nsmall nlen fe refl refl refl refl deeper one r] .
            moreover have "num_set_until ?occ ?chunk \<noteq> 0"
              using t num_set_until_pos [of ?occ ?chunk] by (simp add: occ_test_iff)
            moreover have "num_set_until ?occ ?chunk \<le> 1"
              using num_set_until_le [of ?occ ?chunk] one by simp
            ultimately show ?thesis
              using n' d t by (simp add: Let_def)
          qed
        qed
      qed
    qed
  qed
next
  case (4 hf occupation children hash hashPos entry)
  let ?chunk = "get_hash_chunk hash hashPos"
  let ?loc = "num_set_until occupation ?chunk"
  from "4.prems" have d: "hashPos < kMaxDepth" "\<not> kMaxDepth \<le> hashPos"
    by (auto split: if_splits)
  show ?case
  proof (cases "occ_test occupation ?chunk")
    case True
    with "4.prems" d obtain child where
      loc: "\<not> (?loc = 0 \<or> \<not> ?loc - 1 < length children)"
      and r: "insert_recurse hf (children ! (?loc - 1)) hash (hashPos + 1) entry = Some (b, child)"
      and n': "n' = BranchNode occupation (children[?loc - 1 := child])"
      by (auto simp: Let_def split: option.splits if_splits)
    have "holds_key child hash (hashPos + 1) (fst entry)"
      using "4.IH"(1) [OF d(2) refl refl True loc r] .
    with n' loc d True show ?thesis by (simp add: Let_def)
  next
    case False
    with "4.prems" d obtain children' child where
      a: "addChildToBranchNode occupation children ?chunk ?loc = Some children'"
      and r: "insert_recurse hf Empty hash (hashPos + 1) entry = Some (b, child)"
      and n': "n' = BranchNode (occ_set occupation ?chunk) (children'[?loc := child])"
      by (auto simp: Let_def split: option.splits if_splits)
    have h: "holds_key child hash (hashPos + 1) (fst entry)"
      using "4.IH"(2) [OF d(2) refl refl False a r] .
    from a have len: "?loc < length children'"
      by (auto simp: addChildToBranchNode_def Let_def split: if_splits)
    have "num_set_until (occ_set occupation ?chunk) ?chunk = Suc ?loc"
      using False by (simp add: num_set_until_occ_set occ_test_iff get_hash_chunk_lt)
    with h n' len d show ?thesis
      by (simp add: Let_def occ_test_occ_set get_hash_chunk_lt)
  qed
qed


section \<open>Claims about insertion\<close>

text \<open>
  Claim C10: for every tree that holds key \<open>k\<close> with value \<open>v\<close> (and whose inner
  leaves respect their capacities), \<open>insert\<close> of an entry with key \<open>k\<close> and any value
  \<open>v'\<close> returns false and leaves the tree as it is, so the value stored for \<open>k\<close>
  is still \<open>v\<close>: the new value is discarded.
\<close>

theorem C10_insert_existing_key_keeps_value:
  assumes "within_capacity (root t)" and "find_tree hf t k = Some (Some v)"
  shows "insert_tree hf t (k, v') = Some (False, t) \<and> find_tree hf t k = Some (Some v)"
  using assms insert_recurse_holds_key [OF find_recurse_holds_key, of "root t" "hf k" 0 k v hf v']
  by (simp add: insert_tree_def find_tree_def)

theorem C10_insert_existing_key_keeps_value_witness:
  "within_capacity (root \<lparr>root = InnerLeaf 1 2 [(1 :: nat, 10 :: nat)]\<rparr>) \<and>
   find_tree word_of_nat \<lparr>root = InnerLeaf 1 2 [(1 :: nat, 10 :: nat)]\<rparr> 1 = Some (Some 10) \<and>
   insert_tree word_of_nat \<lparr>root = InnerLeaf 1 2 [(1 :: nat, 10 :: nat)]\<rparr> (1, 20)
     = Some (False, \<lparr>root = InnerLeaf 1 2 [(1, 10)]\<rparr>)"
proof -
  have a: "within_capacity (root \<lparr>root = InnerLeaf 1 2 [(1 :: nat, 10 :: nat)]\<rparr>)"
    by code_simp
  have b: "find_tree word_of_nat \<lparr>root = InnerLeaf 1 2 [(1 :: nat, 10 :: nat)]\<rparr> 1
           = Some (Some 10)"
    by code_simp
  from C10_insert_existing_key_keeps_value [OF a b, of 20] a b show ?thesis by simp
qed


text \<open>
  Claim C8: for every tree and every entry, after \<open>insert\<close> has returned (in
  particular when it has returned true, the key being new), a second \<open>insert\<close> of the
  same entry returns false and leaves the tree exactly as the first insert left it.
\<close>

theorem C8_second_insert_is_noop:
  assumes "insert_tree hf t e = Some (b, t')"
  shows "insert_tree hf t' e = Some (False, t')"
proof -
  from assms obtain n' where
    r: "insert_recurse hf (root t) (hf (fst e)) 0 e = Some (b, n')" and t': "t' = \<lparr>root = n'\<rparr>"
    by (auto simp: insert_tree_def split: option.splits)
  from insert_recurse_result_holds [OF r]
  have "insert_recurse hf n' (hf (fst e)) 0 (fst e, snd e) = Some (False, n')"
    by (rule insert_recurse_holds_key)
  with t' show ?thesis by (simp add: insert_tree_def)
qed

theorem C8_second_insert_is_noop_witness:
  "insert_tree word_of_nat empty_tree (1 :: nat, 10 :: nat)
     = Some (True, \<lparr>root = InnerLeaf 1 2 [(1, 10)]\<rparr>) \<and>
   insert_tree word_of_nat \<lparr>root = InnerLeaf 1 2 [(1 :: nat, 10 :: nat)]\<rparr> (1, 10)
     = Some (False, \<lparr>root = InnerLeaf 1 2 [(1, 10)]\<rparr>)"
proof -
  have a: "insert_tree word_of_nat empty_tree (1 :: nat, 10 :: nat)
     = Some (True, \<lparr>root = InnerLeaf 1 2 [(1, 10)]\<rparr>)"
    by code_simp
  from C8_second_insert_is_noop [OF a] a show ?thesis by simp
qed

section \<open>Claims about the burst at the last level\<close>

text \<open>
  Claim C1: when a full class-4 inner leaf at position \<open>hashPos\<close> bursts and
  \<open>hashPos + 1 = kMaxDepth\<close>, every resulting child is a list leaf, each old entry
  and the incoming entry are in the child selected by their own chunk, afterwards all
  31 keys are found, and no child slot whose occupation bit is set is empty.

  The code does not do this. The leaf at position 10 holds the keys 1 to 30, whose chunk
  is 0; the incoming key 31 has chunk 1. The branch gets the occupation bits 0 and 1; the
  child of chunk 1 receives the incoming entry and all 30 old entries, the child of
  chunk 0 stays empty, and key 1 is not found any more. The same happens when the 31 keys
  are inserted into the empty tree.
\<close>

theorem C1_burst_at_last_level_misplaces_entries:
  "insert_recurse top_chunk_hash (InnerLeaf 4 1 (map (\<lambda>k. (k, ())) [1..<31]))
       (top_chunk_hash 31) 10 (31, ())
     = Some (True, BranchNode 3
         [ListLeaf (30, ()) (map (\<lambda>k. (k, ())) (rev [1..<30]) @ [(31, ())]) 31, Empty]) \<and>
   find_recurse (BranchNode 3
         [ListLeaf (30, ()) (map (\<lambda>k. (k, ())) (rev [1..<30]) @ [(31, ())]) 31, Empty])
       (top_chunk_hash 1) 10 (1 :: nat) = Some None \<and>
   Option.bind (insert_all top_chunk_hash empty_tree (map (\<lambda>k. (k, ())) [1..<32]))
       (\<lambda>t. contains top_chunk_hash t 1) = Some False"
  by code_simp

section \<open>Claims about list leaves\<close>

text \<open>
  Claim C2: after every operation the count field of a list leaf equals the length of its
  chain, and erasing a key of the chain unlinks its entry, so that the key is not found
  afterwards while the other keys of the chain stay reachable.

  The code does not do this for the last node of a chain of two or more: with the chain
  of the keys 1 and 2 and count 2, erasing key 2 decrements the count to 1 and leaves the
  chain as it is, and key 2 is still found. The same happens in the tree built from the
  empty tree by inserting 31 colliding keys, whose chain ends with key 31.
\<close>

theorem C2_erase_of_chain_end_keeps_entry:
  "erase_recurse hf (ListLeaf (1 :: nat, ()) [(2, ())] 2) h kMaxDepth 2
     = Some (ListLeaf (1, ()) [(2, ())] 1) \<and>
   find_recurse (ListLeaf (1 :: nat, ()) [(2, ())] 1) h kMaxDepth 2 = Some (Some ()) \<and>
   Option.bind (insert_all constant_hash empty_tree (map (\<lambda>k. (k, ())) [1..<32]))
       (\<lambda>t. Option.bind (erase constant_hash t 31) (\<lambda>t'. contains constant_hash t' 31))
     = Some True"
proof -
  have "Option.bind (insert_all constant_hash empty_tree (map (\<lambda>k. (k, ())) [1..<32]))
       (\<lambda>t. Option.bind (erase constant_hash t 31) (\<lambda>t'. contains constant_hash t' 31))
     = Some True"
    by code_simp
  then show ?thesis by simp
qed

section \<open>Claims about copying\<close>

text \<open>
  Claim C3: for every tree, the empty tree and trees with list leaves of any chain length
  included, copy construction and copy assignment produce a tree with the same entries,
  which later changes of the source do not affect.

  The code has no defined result for the empty tree (\<^verbatim>\<open>copy_recurse\<close> runs into
  \<^verbatim>\<open>assert(false)\<close> and ends without a return value) and for a list leaf whose chain
  is a single node (the loop dereferences the null \<^verbatim>\<open>next\<close> pointer).
\<close>

theorem C3_copy_undefined_on_empty_tree_and_single_chain:
  "copy_tree (empty_tree :: ('k, 'v) tree) = None \<and>
   copy_tree \<lparr>root = ListLeaf (e :: ('k, 'v) entry) [] 1\<rparr> = None"
  by (simp add: copy_tree_def empty_tree_def)

section \<open>Claims about the invariants of inner leaves\<close>

text \<open>
  Claim C7: after every operation, every inner leaf of class \<open>c\<close> has its entries
  strictly sorted by key without duplicates, a size between 1 and the capacity of
  \<open>c\<close>, and exactly the occupation bits of the chunks of its entries.

  The code breaks the lower bound of the size. Thirty keys that share chunk 0 and a
  key with another chunk 0 are inserted into the empty tree, and the 31 keys are erased
  again, the single key first: the branch node is left with one child, a class-4 leaf,
  and when that child becomes empty \<^verbatim>\<open>removeChildFromBranchNode\<close> merges the
  remaining zero children into a new class-1 leaf of size 0, which becomes the root.
\<close>

theorem C7_erase_leaves_inner_leaf_of_size_zero:
  "Option.bind (insert_all (\<lambda>k. k) empty_tree (map (\<lambda>k. (k, ())) (shared_chunk_keys @ [1])))
     (\<lambda>t. erase_all (\<lambda>k. k) t (1 # shared_chunk_keys))
   = Some \<lparr>root = InnerLeaf 1 0 []\<rparr>"
  by code_simp

section \<open>Facts about merging\<close>

lemma occ_test_zero: "\<not> occ_test 0 x"
  by (simp add: occ_test_def)

lemma insert_entry_total:
  assumes "length es < cap" and "es = [] \<longrightarrow> occ = 0"
  shows "\<exists>b occ' es'. insert_entry cap occ es h d e = Some (b, occ', es')"
  using assms by (auto simp: insert_entry_def Let_def occ_test_zero)

lemma set_insert_at: "set (take i es @ e # drop i es) = Set.insert e (set es)"
proof -
  have "set (take i es) \<union> set (drop i es) = set es"
    by (metis append_take_drop_id set_append)
  then show ?thesis by auto
qed

lemma insert_entry_shape:
  assumes "insert_entry cap occ es h d e = Some (b, occ', es')"
  shows "(es' = es \<and> fst e \<in> fst ` set es) \<or> (\<exists>i. es' = take i es @ e # drop i es)"
proof (cases "occ_test occ (get_hash_chunk h d)")
  case False
  with assms have "es' = take (first_gt (fst e) es) es @ e # drop (first_gt (fst e) es) es"
    by (auto simp: insert_entry_def Let_def split: if_splits)
  then show ?thesis by blast
next
  case True
  let ?i = "first_geq (fst e) es"
  show ?thesis
  proof (cases "?i = length es")
    case len: True
    with assms True have "es' = es @ [e]"
      by (auto simp: insert_entry_def Let_def split: if_splits)
    then have "es' = take (length es) es @ e # drop (length es) es" by simp
    then show ?thesis by blast
  next
    case nlen: False
    with first_geq_le_length [of "fst e" es] have lt: "?i < length es" by simp
    show ?thesis
    proof (cases "fst e = fst (es ! ?i)")
      case True
      with lt have "fst e \<in> fst ` set es" by (metis image_eqI nth_mem)
      moreover from assms \<open>occ_test occ (get_hash_chunk h d)\<close> nlen True have "es' = es"
        by (auto simp: insert_entry_def Let_def split: if_splits)
      ultimately show ?thesis by simp
    next
      case False
      with assms \<open>occ_test occ (get_hash_chunk h d)\<close> nlen
      have "es' = take ?i es @ e # drop ?i es"
        by (auto simp: insert_entry_def Let_def split: if_splits)
      then show ?thesis by blast
    qed
  qed
qed

lemma insert_entry_keys:
  assumes "insert_entry cap occ es h d e = Some (b, occ', es')"
  shows "fst ` set es' = Set.insert (fst e) (fst ` set es)"
  using insert_entry_shape [OF assms]
proof (elim disjE conjE exE)
  assume "es' = es" "fst e \<in> fst ` set es"
  then show ?thesis by auto
next
  fix i assume "es' = take i es @ e # drop i es"
  then have "set es' = Set.insert e (set es)" by (simp only: set_insert_at)
  then show ?thesis by simp
qed

lemma mergeIntoLeaf_total:
  "(es0 = [] \<longrightarrow> occ0 = 0) \<Longrightarrow> length es0 + length es \<le> cap \<Longrightarrow>
     \<exists>occ' es'. mergeIntoLeaf hf cap (occ0, es0) d es = Some (occ', es') \<and>
       (es' = [] \<longrightarrow> occ' = 0) \<and> length es' \<le> length es0 + length es \<and>
       fst ` set es' = fst ` set es0 \<union> fst ` set es"
proof (induction es arbitrary: occ0 es0)
  case Nil
  then show ?case by simp
next
  case (Cons e es)
  from Cons.prems have "length es0 < cap" by simp
  with Cons.prems(1) obtain b occ1 es1 where
    i: "insert_entry cap occ0 es0 (hf (fst e)) d e = Some (b, occ1, es1)"
    using insert_entry_total [of es0 cap occ0 "hf (fst e)" d e] by blast
  from insert_entry_length [OF i] Cons.prems(2)
  have l: "es1 \<noteq> []" "length es1 \<le> Suc (length es0)" "length es1 + length es \<le> cap"
    by auto
  from Cons.IH [of es1 occ1] l obtain occ' es' where
    m: "mergeIntoLeaf hf cap (occ1, es1) d es = Some (occ', es')"
      "es' = [] \<longrightarrow> occ' = 0" "length es' \<le> length es1 + length es"
      "fst ` set es' = fst ` set es1 \<union> fst ` set es"
    by blast
  from i m l insert_entry_keys [OF i] show ?case by auto
qed


lemma mergeIntoLeaf_append:
  "mergeIntoLeaf hf cap leaf d (xs @ ys) =
     (case mergeIntoLeaf hf cap leaf d xs of
        None \<Rightarrow> None
      | Some leaf' \<Rightarrow> mergeIntoLeaf hf cap leaf' d ys)"
  by (induction xs arbitrary: leaf) (auto split: option.splits)

lemma mergeNodeIntoLeaf_eq:
  "mergeNodeIntoLeaf hf cap leaf d n = mergeIntoLeaf hf cap leaf d (merged_entries n)"
  by (cases n) auto

lemma mergeChildren_eq:
  "mergeChildren hf cap leaf d cs = mergeIntoLeaf hf cap leaf d (concat (map merged_entries cs))"
  by (induction cs arbitrary: leaf)
     (auto simp: mergeNodeIntoLeaf_eq mergeIntoLeaf_append split: option.splits)

lemma merged_entries_count:
  "chain_counted ch \<Longrightarrow> int (length (merged_entries ch)) \<le> numEntries ch"
  by (cases ch) auto

lemma merged_entries_total:
  "list_all chain_counted cs \<Longrightarrow>
     int (length (concat (map merged_entries cs))) \<le> sum_list (map numEntries cs)"
proof (induction cs)
  case Nil
  then show ?case by simp
next
  case (Cons ch cs)
  then show ?case using merged_entries_count [of ch] by simp
qed

lemma tdiv_nonneg: "0 \<le> a \<Longrightarrow> 0 < b \<Longrightarrow> tdiv a b = a div b"
  by (cases "a = 0") (simp_all add: tdiv_def)

lemma fitting_class_fits:
  assumes "0 \<le> n" and "n < 30"
  shows "n \<le> int (capacity (fitting_class n))"
    and "1 \<le> c' \<Longrightarrow> n \<le> int (capacity c') \<Longrightarrow> fitting_class n \<le> c'"
proof -
  show "n \<le> int (capacity (fitting_class n))"
    using assms by (simp add: capacity_eq fitting_class_def) linarith
  assume "1 \<le> c'" "n \<le> int (capacity c')"
  then have "n \<le> 6 + 8 * (int c' - 1)"
    by (simp add: capacity_eq of_nat_diff)
  then have "(n + 1) div 8 \<le> int c' - 1" by presburger
  then show "fitting_class n \<le> c'"
    using \<open>1 \<le> c'\<close> by (simp add: fitting_class_def)
qed

lemma removeChildFromBranchNode_cases:
  assumes "length children = num_set occ + 1" and "list_all chain_counted children"
  shows "(merge_gates occ children \<longrightarrow>
            (\<exists>occ' es'. removeChildFromBranchNode hf occ children loc d
                 = Some (InnerLeaf (fitting_class (sum_list (map numEntries children))) occ' es') \<and>
               fst ` set es' = fst ` set (concat (map merged_entries children)))) \<and>
         (\<not> merge_gates occ children \<longrightarrow>
            removeChildFromBranchNode hf occ children loc d
              = Some (BranchNode occ (take loc children @ drop (loc + 1) children)))"
proof (intro conjI impI)
  assume "\<not> merge_gates occ children"
  with assms(1) show "removeChildFromBranchNode hf occ children loc d
      = Some (BranchNode occ (take loc children @ drop (loc + 1) children))"
    by (auto simp: removeChildFromBranchNode_def merge_gates_def Let_def)
next
  let ?total = "sum_list (map numEntries children)"
  let ?es = "concat (map merged_entries children)"
  let ?c = "fitting_class ?total"
  assume g: "merge_gates occ children"
  have len: "int (length ?es) \<le> ?total"
    using assms(2) by (rule merged_entries_total)
  then have nn: "0 \<le> ?total" by linarith
  from g have lt: "?total < 30" by (simp add: merge_gates_def kLeafBurstThreshold_def)
  have sw: "tdiv (?total + 1) 8 = (?total + 1) div 8"
    using nn by (simp add: tdiv_nonneg)
  have range: "0 \<le> (?total + 1) div 8" "(?total + 1) div 8 \<le> 3"
    using nn lt by linarith+
  then have sw_cases: "(?total + 1) div 8 = 0 \<or> (?total + 1) div 8 = 1 \<or>
      (?total + 1) div 8 = 2 \<or> (?total + 1) div 8 = 3"
    by linarith
  have "length ?es \<le> capacity ?c"
    using fitting_class_fits(1) [OF nn lt] len by linarith
  then obtain occ' es' where
    m: "mergeIntoLeaf hf (capacity ?c) (0, []) d ?es = Some (occ', es')"
    and k: "fst ` set es' = fst ` set [] \<union> fst ` set ?es"
    using mergeIntoLeaf_total [of "[]" 0 ?es "capacity ?c" hf d] by auto
  from m have "mergeChildren hf (capacity (nat ((?total + 1) div 8) + 1)) (0, []) d children
      = Some (occ', es')"
    by (simp add: mergeChildren_eq fitting_class_def)
  with g assms(1) sw sw_cases
  have "removeChildFromBranchNode hf occ children loc d = Some (InnerLeaf ?c occ' es')"
    by (simp add: removeChildFromBranchNode_def merge_gates_def Let_def fitting_class_def)
  with k show "\<exists>occ' es'. removeChildFromBranchNode hf occ children loc d
      = Some (InnerLeaf ?c occ' es') \<and> fst ` set es' = fst ` set ?es"
    by simp
qed


lemma fitting_class_least:
  assumes "0 \<le> n"
  shows "fitting_class n = 1 \<or> int (capacity (fitting_class n - 1)) < n"
proof (cases "(n + 1) div 8 = 0")
  case True
  then show ?thesis by (simp add: fitting_class_def)
next
  case False
  with assms have pos: "1 \<le> (n + 1) div 8" by linarith
  then have "int (capacity (fitting_class n - 1)) = 6 + 8 * ((n + 1) div 8 - 1)"
    by (simp add: capacity_eq fitting_class_def of_nat_diff)
  also have "\<dots> < n" by presburger
  finally show ?thesis by simp
qed

section \<open>Claims about merging on erase\<close>

text \<open>
  Claim C4, as stated: when erase removes a child from a branch node and the remaining
  children hold fewer than \<open>kLeafBurstThreshold = 30\<close> entries in total, the branch is
  replaced by a single inner leaf of the smallest size class that fits those entries.
  This fails for a branch at position 0 with six children of one entry each: after the
  key 1 is erased, five entries remain, and the result is a branch node with five
  children.
\<close>

theorem C4_few_entries_without_merge_counterexample:
  "sum_list (map numEntries
       [InnerLeaf 1 1 [(6 :: u64, ())], InnerLeaf 1 1 [(5, ())], InnerLeaf 1 1 [(4, ())],
        InnerLeaf 1 1 [(3, ())], InnerLeaf 1 1 [(2, ())]]) < int kLeafBurstThreshold \<and>
   erase_recurse (\<lambda>k. k) (BranchNode 126
     [InnerLeaf 1 1 [(6 :: u64, ())], InnerLeaf 1 1 [(5, ())], InnerLeaf 1 1 [(4, ())],
      InnerLeaf 1 1 [(3, ())], InnerLeaf 1 1 [(2, ())], InnerLeaf 1 1 [(1, ())]]) 1 0 1
   = Some (BranchNode 124
     [InnerLeaf 1 1 [(6, ())], InnerLeaf 1 1 [(5, ())], InnerLeaf 1 1 [(4, ())],
      InnerLeaf 1 1 [(3, ())], InnerLeaf 1 1 [(2, ())]])"
  by code_simp

text \<open>
  Claim C4, amended: when erase removes a child from a branch node, and at most five
  children remain (\<open>newNumChild * 6 \<le> 30\<close>), and the sum of the estimates of the
  remaining children (the capacity of its size class for an inner leaf, 1 for a list leaf,
  64 for a branch node) is below 30, and the sum of their entry counts is below 30, then
  the branch is replaced by a single inner leaf of the smallest size class that fits that
  sum, and the leaf holds the keys of all those entries. (The child array still has the
  emptied slot, and list leaves are counted by their chain length.)
\<close>

theorem C4_merge_back_when_estimates_allow:
  assumes "length children = num_set occ + 1" and "list_all chain_counted children"
    and "merge_gates occ children"
  shows "\<exists>occ' es'.
           removeChildFromBranchNode hf occ children loc d
             = Some (InnerLeaf (fitting_class (sum_list (map numEntries children))) occ' es') \<and>
           fst ` set es' = fst ` set (concat (map merged_entries children)) \<and>
           sum_list (map numEntries children)
             \<le> int (capacity (fitting_class (sum_list (map numEntries children)))) \<and>
           (fitting_class (sum_list (map numEntries children)) = 1 \<or>
            int (capacity (fitting_class (sum_list (map numEntries children)) - 1))
              < sum_list (map numEntries children))"
proof -
  let ?total = "sum_list (map numEntries children)"
  have "int (length (concat (map merged_entries children))) \<le> ?total"
    using assms(2) by (rule merged_entries_total)
  then have nn: "0 \<le> ?total" by linarith
  from assms(3) have lt: "?total < 30" by (simp add: merge_gates_def kLeafBurstThreshold_def)
  from removeChildFromBranchNode_cases [OF assms(1,2), of hf loc d] assms(3)
    fitting_class_fits(1) [OF nn lt] fitting_class_least [OF nn]
  show ?thesis by blast
qed

theorem C4_merge_back_when_estimates_allow_witness:
  "length [InnerLeaf 1 1 [(1 :: u64, ())], Empty] = num_set 2 + 1 \<and>
   list_all chain_counted [InnerLeaf 1 1 [(1 :: u64, ())], Empty] \<and>
   merge_gates 2 [InnerLeaf 1 1 [(1 :: u64, ())], Empty] \<and>
   (\<exists>occ' es'. removeChildFromBranchNode (\<lambda>k. k) 2 [InnerLeaf 1 1 [(1 :: u64, ())], Empty] 1 0
      = Some (InnerLeaf 1 occ' es'))"
proof -
  let ?cs = "[InnerLeaf 1 1 [(1 :: u64, ())], Empty]"
  have a: "length ?cs = num_set 2 + 1" by code_simp
  have b: "list_all chain_counted ?cs" by code_simp
  have c: "merge_gates 2 ?cs" by code_simp
  have d: "fitting_class (sum_list (map numEntries ?cs)) = 1" by code_simp
  from C4_merge_back_when_estimates_allow [OF a b c, of "\<lambda>k. k" 1 0] a b c show ?thesis
    unfolding d by blast
qed

section \<open>Facts about well-formed trees\<close>

lemma length_set_bits_desc: "length (set_bits_desc w) = num_set w"
  by (simp add: set_bits_desc_def num_set_def popcnt_def rev_filter [symmetric])

lemma erase_loop_absent:
  "k \<notin> fst ` set es \<Longrightarrow> \<exists>fc'. erase_loop hf hc d k es False fc = (es, False, fc')"
proof (induction es arbitrary: fc)
  case Nil
  then show ?case by simp
next
  case (Cons e es)
  let ?fc = "fc + (if get_hash_chunk (hf (fst e)) d = hc then 1 else 0)"
  from Cons.prems have "k \<noteq> fst e" "k \<notin> fst ` set es" by auto
  with Cons.IH [of ?fc] show ?case by (auto simp: Let_def)
qed

lemma erase_chain_absent: "k \<notin> fst ` set es \<Longrightarrow> erase_chain k es = (False, es)"
  by (induction es) auto

lemma erase_entry_absent:
  assumes "k \<notin> fst ` set es" and "es \<noteq> []"
  shows "erase_entry hf occ es h d k = Some (False, occ, es)"
proof -
  from erase_loop_absent [OF assms(1), of hf "get_hash_chunk h d" d 0]
  obtain fc' where "erase_loop hf (get_hash_chunk h d) d k es False 0 = (es, False, fc')"
    by blast
  with assms(2) show ?thesis by (simp add: erase_entry_def Let_def)
qed

lemma well_formed_child:
  assumes "well_formed hf d (BranchNode occ cs)" and "i < length cs"
  shows "cs ! i \<noteq> Empty" and "well_formed hf (d + 1) (cs ! i)"
    and "\<forall>e \<in> set (entries_of (cs ! i)). get_hash_chunk (hf (fst e)) d = set_bits_desc occ ! i"
  using assms by (auto simp: list_all2_conv_all_nth list_all_iff)

lemma well_formed_children_length:
  "well_formed hf d (BranchNode occ cs) \<Longrightarrow> length cs = num_set occ"
  by (auto simp: length_set_bits_desc [symmetric] dest: list_all2_lengthD)

lemma keys_of_child: "i < length cs \<Longrightarrow> keys_of (cs ! i) \<subseteq> keys_of (BranchNode occ cs)"
  by (force simp: keys_of_def)

lemma erase_recurse_absent:
  "well_formed hf d n \<Longrightarrow> k \<notin> keys_of n \<Longrightarrow> erase_recurse hf n h d k = Some n"
proof (induction hf n h d k rule: erase_recurse.induct)
  case (1 hf hash hashPos key)
  then show ?case by simp
next
  case (2 hf first rest count hash hashPos key)
  then have "erase_chain key (first # rest) = (False, first # rest)"
    by (intro erase_chain_absent) (simp add: keys_of_def)
  moreover from "2.prems" have "count \<noteq> 0" by simp
  ultimately show ?case by (simp del: erase_chain.simps)
next
  case (3 hf c occupation entries hash hashPos key)
  then have "erase_entry hf occupation entries hash hashPos key = Some (False, occupation, entries)"
    by (intro erase_entry_absent) (simp_all add: keys_of_def)
  with "3.prems" show ?case by (simp add: erase_from_leaf_def)
next
  case (4 hf occupation children hash hashPos key)
  let ?chunk = "get_hash_chunk hash hashPos"
  let ?loc = "num_set_until occupation ?chunk"
  from "4.prems" have d: "\<not> kMaxDepth \<le> hashPos" by simp
  show ?case
  proof (cases "occ_test occupation ?chunk")
    case False
    with d show ?thesis by simp
  next
    case True
    then have "0 < ?loc" by (simp add: num_set_until_pos occ_test_iff)
    moreover have "?loc \<le> length children"
      using num_set_until_le [of occupation ?chunk] well_formed_children_length [OF "4.prems"(1)]
      by simp
    ultimately have loc: "\<not> (?loc = 0 \<or> \<not> ?loc - 1 < length children)" "?loc - 1 < length children"
      by simp_all
    have "key \<notin> keys_of (children ! (?loc - 1))"
      using keys_of_child [OF loc(2), of occupation] "4.prems"(2) by blast
    moreover from True have tt: "\<not> \<not> occ_test occupation ?chunk" by simp
    ultimately have "erase_recurse hf (children ! (?loc - 1)) hash (hashPos + 1) key
        = Some (children ! (?loc - 1))"
      using "4.IH" [OF d refl tt refl loc(1)] well_formed_child(2) [OF "4.prems"(1) loc(2)]
      by simp
    with d True loc well_formed_child(1) [OF "4.prems"(1) loc(2)] show ?thesis
      by (simp add: Let_def)
  qed
qed


lemma set_set_bits_desc: "set (set_bits_desc w) = {i. bit w i}"
  by (auto simp: set_bits_desc_def dest: bit_imp_le_length)

lemma distinct_set_bits_desc: "distinct (set_bits_desc w)"
  by (simp add: set_bits_desc_def)

lemma set_bits_desc_rank:
  assumes "bit w c"
  shows "num_set_until w c - 1 < length (set_bits_desc w)"
    and "set_bits_desc w ! (num_set_until w c - 1) = c"
proof -
  have c: "c < 64" using assms by (auto dest: bit_imp_le_length)
  let ?A = "filter (bit w) (rev [Suc c..<64])"
  let ?B = "filter (bit w) (rev [0..<c])"
  have "[0..<64] = [0..<c] @ c # [Suc c..<64]"
    using c by (metis le_add2 less_imp_add_positive upt_add_eq_append upt_conv_Cons zero_le)
  then have split: "set_bits_desc w = ?A @ c # ?B"
    using assms by (simp add: set_bits_desc_def)
  have "length ?A = card ({i. bit w i} \<inter> set [Suc c..<64])"
    by (simp add: rev_filter [symmetric] distinct_length_filter del: set_upt)
  also have "{i. bit w i} \<inter> set [Suc c..<64] = {i. Suc c \<le> i \<and> bit w i}"
    by (auto dest: bit_imp_le_length)
  finally have lenA: "length ?A = card {i. Suc c \<le> i \<and> bit w i}" .
  have "{i. c \<le> i \<and> bit w i} = Set.insert c {i. Suc c \<le> i \<and> bit w i}"
    using assms by (auto simp: le_Suc_eq less_eq_Suc_le)
  moreover have "c \<notin> {i. Suc c \<le> i \<and> bit w i}" by simp
  ultimately have "num_set_until w c = Suc (card {i. Suc c \<le> i \<and> bit w i})"
    by (simp add: num_set_until_card finite_bits_from del: insert_iff)
  with lenA have idx: "num_set_until w c - 1 = length ?A" by simp
  show "num_set_until w c - 1 < length (set_bits_desc w)"
    unfolding idx split by simp
  show "set_bits_desc w ! (num_set_until w c - 1) = c"
    unfolding idx split by (simp only: nth_append_length)
qed

lemma sorted_key_found:
  "sorted_wrt (<) (map fst es) \<Longrightarrow> key_found k es \<longleftrightarrow> k \<in> fst ` set es"
  by (induction es) (auto simp: key_found_def)


lemma keys_of_branch:
  "k \<in> keys_of (BranchNode occ cs) \<longleftrightarrow> (\<exists>i<length cs. k \<in> keys_of (cs ! i))"
proof
  assume "k \<in> keys_of (BranchNode occ cs)"
  then obtain n where "n \<in> set cs" "k \<in> fst ` set (entries_of n)"
    by (auto simp: keys_of_def)
  moreover then obtain i where "i < length cs" "cs ! i = n"
    by (auto simp: in_set_conv_nth)
  ultimately show "\<exists>i<length cs. k \<in> keys_of (cs ! i)"
    by (auto simp: keys_of_def)
next
  assume "\<exists>i<length cs. k \<in> keys_of (cs ! i)"
  then obtain i where "i < length cs" "k \<in> keys_of (cs ! i)" by blast
  then show "k \<in> keys_of (BranchNode occ cs)"
    using keys_of_child by blast
qed

lemma key_in_branch_child:
  assumes wf: "well_formed hf d (BranchNode occ cs)"
  shows "k \<in> keys_of (BranchNode occ cs) \<longleftrightarrow>
         bit occ (get_hash_chunk (hf k) d) \<and>
         k \<in> keys_of (cs ! (num_set_until occ (get_hash_chunk (hf k) d) - 1))"
proof
  let ?c = "get_hash_chunk (hf k) d"
  assume "k \<in> keys_of (BranchNode occ cs)"
  then obtain i where i: "i < length cs" "k \<in> keys_of (cs ! i)"
    by (auto simp: keys_of_branch)
  then obtain e where e: "e \<in> set (entries_of (cs ! i))" "fst e = k"
    by (auto simp: keys_of_def)
  with well_formed_child(3) [OF wf i(1)] have h: "set_bits_desc occ ! i = ?c"
    by auto
  have len: "length cs = length (set_bits_desc occ)"
    using wf by (simp add: well_formed_children_length length_set_bits_desc)
  with i(1) h have "?c \<in> set (set_bits_desc occ)" by (metis nth_mem)
  then have b: "bit occ ?c" by (simp add: set_set_bits_desc)
  from set_bits_desc_rank(2) [OF b] h
  have "set_bits_desc occ ! (num_set_until occ ?c - 1) = set_bits_desc occ ! i" by simp
  moreover from i(1) len have "i < length (set_bits_desc occ)" by simp
  ultimately have "num_set_until occ ?c - 1 = i"
    using nth_eq_iff_index_eq [OF distinct_set_bits_desc set_bits_desc_rank(1) [OF b]]
    by blast
  with b i(2) show "bit occ ?c \<and> k \<in> keys_of (cs ! (num_set_until occ ?c - 1))" by simp
next
  let ?c = "get_hash_chunk (hf k) d"
  assume a: "bit occ ?c \<and> k \<in> keys_of (cs ! (num_set_until occ ?c - 1))"
  then have "num_set_until occ ?c - 1 < length cs"
    using set_bits_desc_rank(1) [of occ ?c] wf
    by (simp add: well_formed_children_length length_set_bits_desc)
  with a show "k \<in> keys_of (BranchNode occ cs)"
    using keys_of_child by blast
qed

lemma occupation_exact:
  assumes "well_formed hf d (InnerLeaf c occ es)" and "k \<in> fst ` set es"
  shows "occ_test occ (get_hash_chunk (hf k) d)"
proof -
  from assms(2) have "list_ex (\<lambda>e. get_hash_chunk (hf (fst e)) d = get_hash_chunk (hf k) d) es"
    by (auto simp: list_ex_iff)
  with assms(1) get_hash_chunk_lt [of "hf k" d] show ?thesis
    by (auto simp: list_all_iff occ_test_iff)
qed

lemma find_entry_correct:
  assumes "well_formed hf d (InnerLeaf c occ es)"
  shows "\<exists>r. find_entry occ es (hf k) d k = Some r \<and> (r \<noteq> None \<longleftrightarrow> k \<in> fst ` set es)"
proof (cases "occ_test occ (get_hash_chunk (hf k) d)")
  case False
  with occupation_exact [OF assms, of k] show ?thesis
    by (auto simp: find_entry_def)
next
  case True
  from assms have ne: "es \<noteq> []" and srt: "sorted_wrt (<) (map fst es)" by simp_all
  show ?thesis
  proof (cases "key_found k es")
    case kf: True
    with True have "find_entry occ es (hf k) d k = Some (Some (snd (es ! first_geq k es)))"
      by (simp add: find_entry_key_found)
    with kf srt show ?thesis by (simp add: sorted_key_found)
  next
    case nkf: False
    with True ne first_geq_le_length [of k es] have "find_entry occ es (hf k) d k = Some None"
      by (auto simp: find_entry_def key_found_def Let_def)
    with nkf srt show ?thesis by (simp add: sorted_key_found)
  qed
qed

lemma find_key_None: "find (\<lambda>e. fst e = k) es = None \<longleftrightarrow> k \<notin> fst ` set es"
  by (induction es) auto

lemma find_recurse_correct:
  "well_formed hf d n \<Longrightarrow> h = hf k \<Longrightarrow>
     \<exists>r. find_recurse n h d k = Some r \<and> (r \<noteq> None \<longleftrightarrow> k \<in> keys_of n)"
proof (induction n h d k rule: find_recurse.induct)
  case (1 hash hashPos key)
  then show ?case by (simp add: keys_of_def)
next
  case (2 first rest count hash hashPos key)
  have "map_option snd (find (\<lambda>e. fst e = key) (first # rest)) = None
      \<longleftrightarrow> key \<notin> fst ` set (first # rest)"
    by (simp only: map_option_is_None find_key_None)
  then show ?case
    unfolding find_recurse.simps keys_of_def entries_of.simps by blast
next
  case (3 c occupation entries hash hashPos key)
  with find_entry_correct [OF "3.prems"(1), of key] show ?case
    by (simp add: keys_of_def)
next
  case (4 occupation children hash hashPos key)
  let ?chunk = "get_hash_chunk hash hashPos"
  let ?loc = "num_set_until occupation ?chunk"
  note wf = "4.prems"(1)
  from wf have d: "\<not> kMaxDepth \<le> hashPos" by simp
  note loc_key = key_in_branch_child [OF wf, of key, folded "4.prems"(2)]
  show ?case
  proof (cases "occ_test occupation ?chunk")
    case False
    with d loc_key show ?thesis by (simp add: occ_test_iff)
  next
    case True
    then have b: "bit occupation ?chunk" by (simp add: occ_test_iff)
    have "0 < ?loc" using b by (simp add: num_set_until_pos)
    moreover have "?loc - 1 < length children"
      using set_bits_desc_rank(1) [OF b] wf
      by (simp add: well_formed_children_length length_set_bits_desc)
    ultimately have loc: "\<not> (?loc = 0 \<or> \<not> ?loc - 1 < length children)"
      "?loc - 1 < length children"
      by simp_all
    from True have tt: "\<not> \<not> occ_test occupation ?chunk" by simp
    from "4.IH" [OF d refl tt refl loc(1) well_formed_child(2) [OF wf loc(2)] "4.prems"(2)]
    obtain r where "find_recurse (children ! (?loc - 1)) hash (hashPos + 1) key = Some r"
      "r \<noteq> None \<longleftrightarrow> key \<in> keys_of (children ! (?loc - 1))"
      by blast
    with d True loc b loc_key show ?thesis by (simp add: Let_def)
  qed
qed


text \<open>
  On a well-formed tree, erasing a key that the tree does not contain leaves the tree as
  it is.
\<close>

lemma erase_absent_key_well_formed:
  assumes "well_formed hf 0 (root t)" and "contains hf t k = Some False"
  shows "erase hf t k = Some t"
proof -
  from find_recurse_correct [OF assms(1) refl, of k] assms(2)
  have "k \<notin> keys_of (root t)"
    by (auto simp: contains_def)
  with assms(1) have "erase_recurse hf (root t) (hf k) 0 k = Some (root t)"
    by (rule erase_recurse_absent)
  then show ?thesis by (simp add: erase_def)
qed

section \<open>Claims about erasure\<close>

text \<open>
  Claim C9: for every tree and every key that the tree does not contain, \<open>erase\<close>
  leaves the tree as it is.

  The code does not do this on every tree that the operations build. Thirty 64-bit keys
  with chunk 0 equal to 1 and then the key whose chunks 0 to 9 are 1 and whose last chunk
  is 2 are inserted into the empty tree, with the identity as hash. The full leaf is
  pushed down to position 10 and bursts there into a branch node with the occupation
  bits 1 and 2, whose slot for bit 1 is empty (claim C1). The key whose chunks 0 to 10 are
  all 1 was never inserted, is not stored and is reported absent by \<open>contains\<close>;
  erasing it reaches the empty slot, and the branch node loses its bit 1 and its slot:
  the tree after the erase is not the tree before.
\<close>

theorem C9_erase_of_absent_key_changes_tree:
  "Option.bind
     (insert_all (\<lambda>k. k) empty_tree
        (map (\<lambda>k. (k, ())) (chunk_one_keys @ [2324143350556659777])))
     (\<lambda>t. Some (contains (\<lambda>k. k) t 1171221845949812801,
                 List.member (entries_of (root t)) (1171221845949812801, ()),
                 erase (\<lambda>k. k) t 1171221845949812801 = Some t))
   = Some (Some False, False, False)"
  by code_simp

section \<open>Facts about common entries\<close>

lemma common_entry_result_sym:
  "common_entry_result n1 n2 r \<Longrightarrow> common_entry_result n2 n1 r"
  by (auto simp: common_entry_result_def split: option.splits)

lemma match_positions_set: "set (match_positions m) = {i. bit m i}"
proof (induction m rule: match_positions.induct)
  case (1 m)
  show ?case
  proof (cases "m = 0")
    case True
    then show ?thesis by (subst match_positions.simps) simp
  next
    case False
    let ?p = "log2i m"
    have b: "bit m ?p" using False by (rule log2i_bit)
    then have p: "?p < 64" by (auto dest: bit_imp_le_length)
    have "set (match_positions (m XOR push_bit ?p 1)) = {i. bit (m XOR push_bit ?p 1) i}"
      using "1.IH" [OF False refl] .
    also have "\<dots> = {i. bit m i} - {?p}"
      using b p by (auto simp: bit_simps)
    finally have "set (match_positions m) = Set.insert ?p ({i. bit m i} - {?p})"
      using False by (subst match_positions.simps) (simp add: Let_def)
    with b show ?thesis by auto
  qed
qed

lemma sorted_keys_above:
  "sorted_wrt (<) (map fst (e # es)) \<Longrightarrow> k \<in> fst ` set es \<Longrightarrow> fst e < k"
  by auto

lemma scan_skip_left:
  assumes "case r of Some e \<Rightarrow> e \<in> set es1 \<and> fst e \<in> fst ` set es2
           | None \<Rightarrow> fst ` set es1 \<inter> fst ` set es2 = {}"
    and "fst x \<notin> fst ` set es2"
  shows "case r of Some e \<Rightarrow> e \<in> set (x # es1) \<and> fst e \<in> fst ` set es2
         | None \<Rightarrow> fst ` set (x # es1) \<inter> fst ` set es2 = {}"
  using assms by (cases r) auto

lemma scan_skip_right:
  assumes "case r of Some e \<Rightarrow> e \<in> set es1 \<and> fst e \<in> fst ` set es2
           | None \<Rightarrow> fst ` set es1 \<inter> fst ` set es2 = {}"
    and "fst y \<notin> fst ` set es1"
  shows "case r of Some e \<Rightarrow> e \<in> set es1 \<and> fst e \<in> fst ` set (y # es2)
         | None \<Rightarrow> fst ` set es1 \<inter> fst ` set (y # es2) = {}"
  using assms by (cases r) auto

lemma common_scan_correct:
  "sorted_wrt (<) (map fst es1) \<Longrightarrow> sorted_wrt (<) (map fst es2) \<Longrightarrow>
     (case common_scan es1 es2 of
        Some e \<Rightarrow> e \<in> set es1 \<and> fst e \<in> fst ` set es2
      | None \<Rightarrow> fst ` set es1 \<inter> fst ` set es2 = {})"
proof (induction es1 es2 rule: common_scan.induct)
  case (1 es2)
  then show ?case by simp
next
  case (2 e1 es1)
  then show ?case by simp
next
  case (3 e1 es1 e2 es2)
  show ?case
  proof (cases "fst e1 < fst e2")
    case True
    with "3.IH"(1) "3.prems" have
      ih: "case common_scan es1 (e2 # es2) of
             Some e \<Rightarrow> e \<in> set es1 \<and> fst e \<in> fst ` set (e2 # es2)
           | None \<Rightarrow> fst ` set es1 \<inter> fst ` set (e2 # es2) = {}"
      by simp
    have "fst e1 \<notin> fst ` set (e2 # es2)"
      using True "3.prems"(2) by (auto simp: less_le_not_le dest: less_trans)
    from scan_skip_left [OF ih this] True show ?thesis by simp
  next
    case False
    show ?thesis
    proof (cases "fst e2 < fst e1")
      case lt: True
      with False "3.IH"(2) "3.prems" have
        ih: "case common_scan (e1 # es1) es2 of
               Some e \<Rightarrow> e \<in> set (e1 # es1) \<and> fst e \<in> fst ` set es2
             | None \<Rightarrow> fst ` set (e1 # es1) \<inter> fst ` set es2 = {}"
        by simp
      have "fst e2 \<notin> fst ` set (e1 # es1)"
        using lt "3.prems"(1) by (auto simp: less_le_not_le dest: less_trans)
      from scan_skip_right [OF ih this] False lt show ?thesis by simp
    next
      case nlt: False
      with False have "fst e1 = fst e2" by simp
      with False nlt show ?thesis by simp
    qed
  qed
qed


lemma sorted_last_max:
  "sorted_wrt (<) (map fst es) \<Longrightarrow> e \<in> set es \<Longrightarrow> fst e \<le> fst (last es)"
  for es :: "('k::linorder, 'v) entry list"
  by (induction es) (auto simp: less_imp_le)

lemma sorted_hd_min:
  "sorted_wrt (<) (map fst es) \<Longrightarrow> e \<in> set es \<Longrightarrow> fst (hd es) \<le> fst e"
  for es :: "('k::linorder, 'v) entry list"
  by (cases es) (auto simp: less_imp_le)

lemma findCommonInLeaves_correct:
  assumes wf1: "well_formed hf d (InnerLeaf c1 occ1 es1)"
    and wf2: "well_formed hf d (InnerLeaf c2 occ2 es2)"
  shows "\<exists>r. findCommonInLeaves occ1 es1 occ2 es2 = Some r \<and>
           (case r of Some e \<Rightarrow> e \<in> set es1 \<and> fst e \<in> fst ` set es2
            | None \<Rightarrow> fst ` set es1 \<inter> fst ` set es2 = {})"
proof -
  from wf1 wf2 have ne: "es1 \<noteq> []" "es2 \<noteq> []"
    and s1: "sorted_wrt (<) (map fst es1)" and s2: "sorted_wrt (<) (map fst es2)"
    by simp_all
  show ?thesis
  proof (cases "occ1 AND occ2 = 0")
    case True
    have "fst ` set es1 \<inter> fst ` set es2 = {}"
    proof (rule ccontr)
      assume "fst ` set es1 \<inter> fst ` set es2 \<noteq> {}"
      then obtain k where "k \<in> fst ` set es1" "k \<in> fst ` set es2" by blast
      with occupation_exact [OF wf1] occupation_exact [OF wf2]
      have "bit (occ1 AND occ2) (get_hash_chunk (hf k) d)"
        by (simp add: occ_test_iff bit_simps)
      with True show False by simp
    qed
    with True show ?thesis by (simp add: findCommonInLeaves_def)
  next
    case False
    show ?thesis
    proof (cases "fst (last es1) < fst (hd es2) \<or> fst (last es2) < fst (hd es1)")
      case True
      have "fst ` set es1 \<inter> fst ` set es2 = {}"
      proof (rule ccontr)
        assume "fst ` set es1 \<inter> fst ` set es2 \<noteq> {}"
        then obtain a b where ab: "a \<in> set es1" "b \<in> set es2" "fst a = fst b" by force
        from sorted_last_max [OF s1 ab(1)] sorted_hd_min [OF s2 ab(2)]
          sorted_last_max [OF s2 ab(2)] sorted_hd_min [OF s1 ab(1)] ab(3) True
        show False by auto
      qed
      with False True ne show ?thesis by (simp add: findCommonInLeaves_def)
    next
      case nrange: False
      with False ne common_scan_correct [OF s1 s2] show ?thesis
        by (simp add: findCommonInLeaves_def)
    qed
  qed
qed

lemma probe_entries_correct:
  assumes "well_formed hf d n2"
  shows "\<exists>r. probe_entries hf es n2 d = Some r \<and>
           (case r of Some e \<Rightarrow> e \<in> set es \<and> fst e \<in> keys_of n2
            | None \<Rightarrow> fst ` set es \<inter> keys_of n2 = {})"
proof (induction es)
  case Nil
  then show ?case by simp
next
  case (Cons e es)
  from find_recurse_correct [OF assms refl, of "fst e"] obtain r where
    r: "find_recurse n2 (hf (fst e)) d (fst e) = Some r" "r \<noteq> None \<longleftrightarrow> fst e \<in> keys_of n2"
    by blast
  show ?case
  proof (cases r)
    case None
    with r Cons.IH show ?thesis by (auto split: option.splits)
  next
    case (Some v)
    with r show ?thesis by simp
  qed
qed

lemma first_match_correct:
  assumes "\<forall>pos \<in> set ps. f pos \<noteq> None"
  shows "\<exists>r. first_match (map f ps) = Some r \<and>
           (case r of Some e \<Rightarrow> \<exists>pos \<in> set ps. f pos = Some (Some e)
            | None \<Rightarrow> \<forall>pos \<in> set ps. f pos = Some None)"
  using assms
proof (induction ps)
  case Nil
  then show ?case by simp
next
  case (Cons p ps)
  then obtain r where r: "f p = Some r" by auto
  show ?case
  proof (cases r)
    case None
    with r Cons show ?thesis by (auto split: option.splits)
  next
    case (Some e)
    with r show ?thesis by simp
  qed
qed

lemma entries_of_child:
  assumes "i < length cs"
  shows "set (entries_of (cs ! i)) \<subseteq> set (entries_of (BranchNode occ cs))"
proof
  fix e assume e: "e \<in> set (entries_of (cs ! i))"
  from assms have "cs ! i \<in> set cs" by simp
  with e show "e \<in> set (entries_of (BranchNode occ cs))"
    by (auto intro: bexI [of _ "cs ! i"])
qed

lemma find_common_recurse_correct:
  "well_formed hf d n1 \<Longrightarrow> well_formed hf d n2 \<Longrightarrow>
     \<exists>r. find_common_recurse hf n1 n2 d = Some r \<and> common_entry_result n1 n2 r"
proof (induction hf n1 n2 d rule: find_common_recurse.induct)
  case (1 hf n1 n2 d)
  note unf = find_common_recurse.simps [of hf n1 n2 d]
  note wf1 = "1.prems"(1) and wf2 = "1.prems"(2)
  show ?case
  proof (cases "getType n2 < getType n1")
    case True
    from "1.IH"(1) [OF True wf2 wf1] obtain r where
      "find_common_recurse hf n2 n1 d = Some r" "common_entry_result n2 n1 r"
      by blast
    with True show ?thesis
      by (subst unf) (simp add: common_entry_result_sym)
  next
    case False
    show ?thesis
    proof (cases n1)
      case Empty
      with False show ?thesis
        by (subst unf) (simp add: common_entry_result_def keys_of_def)
    next
      case (ListLeaf first rest count)
      from probe_entries_correct [OF wf2, of "first # rest"] obtain r where
        r: "probe_entries hf (first # rest) n2 d = Some r"
        "case r of Some e \<Rightarrow> e \<in> set (first # rest) \<and> fst e \<in> keys_of n2
         | None \<Rightarrow> fst ` set (first # rest) \<inter> keys_of n2 = {}"
        by blast
      from r(2) ListLeaf have "common_entry_result n1 n2 r"
        by (cases r) (auto simp: common_entry_result_def keys_of_def)
      with r(1) ListLeaf False show ?thesis
        by (subst unf) (simp del: probe_entries.simps)
    next
      case (InnerLeaf c occ es)
      with wf1 have c: "1 \<le> c" "c \<le> 4" and d: "d < kMaxDepth" by simp_all
      have "\<exists>r. findCommonInLeaf hf occ es n2 d = Some r \<and> common_entry_result n1 n2 r"
      proof (cases n2)
        case Empty
        then show ?thesis by (simp add: common_entry_result_def keys_of_def)
      next
        case (ListLeaf first2 rest2 count2)
        with wf2 d show ?thesis by simp
      next
        case n2: (InnerLeaf c2 occ2 es2)
        from wf2 n2 have c2: "1 \<le> c2" "c2 \<le> 4" by simp_all
        from findCommonInLeaves_correct [OF wf1 [unfolded InnerLeaf] wf2 [unfolded n2]]
        obtain r where
          r: "findCommonInLeaves occ es occ2 es2 = Some r"
          "case r of Some e \<Rightarrow> e \<in> set es \<and> fst e \<in> fst ` set es2
           | None \<Rightarrow> fst ` set es \<inter> fst ` set es2 = {}"
          by blast
        from r(2) InnerLeaf n2 have "common_entry_result n1 n2 r"
          by (cases r) (auto simp: common_entry_result_def keys_of_def)
        with r(1) n2 c2 show ?thesis by simp
      next
        case n2: (BranchNode occ2 cs2)
        from probe_entries_correct [OF wf2, of es] obtain r where
          r: "probe_entries hf es n2 d = Some r"
          "case r of Some e \<Rightarrow> e \<in> set es \<and> fst e \<in> keys_of n2
           | None \<Rightarrow> fst ` set es \<inter> keys_of n2 = {}"
          by blast
        from r(2) InnerLeaf have "common_entry_result n1 n2 r"
          by (cases r) (auto simp: common_entry_result_def keys_of_def)
        with r(1) n2 show ?thesis by simp
      qed
      with InnerLeaf False c show ?thesis
        by (subst unf) simp
    next
      case b1: (BranchNode occ1 cs1)
      from False b1 wf2 obtain occ2 cs2 where b2: "n2 = BranchNode occ2 cs2"
        by (cases n2) auto
      let ?ps = "match_positions (occ1 AND occ2)"
      let ?f = "\<lambda>pos.
          let location1 = num_set_until occ1 pos; location2 = num_set_until occ2 pos
          in if location1 = 0 \<or> \<not> location1 - 1 < length cs1 \<or>
                location2 = 0 \<or> \<not> location2 - 1 < length cs2
             then None
             else find_common_recurse hf (cs1 ! (location1 - 1)) (cs2 ! (location2 - 1)) (d + 1)"
      have len1: "length cs1 = length (set_bits_desc occ1)"
        using wf1 b1 by (simp add: well_formed_children_length length_set_bits_desc)
      have len2: "length cs2 = length (set_bits_desc occ2)"
        using wf2 b2 by (simp add: well_formed_children_length length_set_bits_desc)
      have visit: "\<exists>r. ?f pos = Some r \<and>
          common_entry_result (cs1 ! (num_set_until occ1 pos - 1))
            (cs2 ! (num_set_until occ2 pos - 1)) r"
        if pos: "pos \<in> set ?ps" for pos
      proof -
        from pos have bits: "bit occ1 pos" "bit occ2 pos"
          by (simp_all add: match_positions_set bit_simps)
        have l1: "num_set_until occ1 pos - 1 < length cs1" "num_set_until occ1 pos \<noteq> 0"
          using set_bits_desc_rank(1) [OF bits(1)] num_set_until_pos [OF bits(1)] len1 by simp_all
        have l2: "num_set_until occ2 pos - 1 < length cs2" "num_set_until occ2 pos \<noteq> 0"
          using set_bits_desc_rank(1) [OF bits(2)] num_set_until_pos [OF bits(2)] len2 by simp_all
        from l1 l2 have g: "\<not> (num_set_until occ1 pos = 0 \<or>
            \<not> num_set_until occ1 pos - 1 < length cs1 \<or>
            num_set_until occ2 pos = 0 \<or> \<not> num_set_until occ2 pos - 1 < length cs2)"
          by simp
        from "1.IH"(2) [OF False b1 b2 pos refl refl g
            well_formed_child(2) [OF wf1 [unfolded b1] l1(1)]
            well_formed_child(2) [OF wf2 [unfolded b2] l2(1)]]
        show ?thesis using g by (simp add: Let_def)
      qed
      then have "\<forall>pos \<in> set ?ps. ?f pos \<noteq> None" by auto
      from first_match_correct [OF this] obtain r where
        r: "first_match (map ?f ?ps) = Some r"
        "case r of Some e \<Rightarrow> \<exists>pos \<in> set ?ps. ?f pos = Some (Some e)
         | None \<Rightarrow> \<forall>pos \<in> set ?ps. ?f pos = Some None"
        by blast
      have "common_entry_result n1 n2 r"
      proof (cases r)
        case (Some e)
        with r(2) obtain pos where pos: "pos \<in> set ?ps" "?f pos = Some (Some e)" by auto
        let ?i = "num_set_until occ1 pos - 1" and ?j = "num_set_until occ2 pos - 1"
        from visit [OF pos(1)] pos(2)
        have ce: "common_entry_result (cs1 ! ?i) (cs2 ! ?j) (Some e)" by simp
        from pos(1) have bits: "bit occ1 pos" "bit occ2 pos"
          by (simp_all add: match_positions_set bit_simps)
        have i: "?i < length cs1" using set_bits_desc_rank(1) [OF bits(1)] len1 by simp
        have j: "?j < length cs2" using set_bits_desc_rank(1) [OF bits(2)] len2 by simp
        from ce entries_of_child [OF i, of occ1] entries_of_child [OF j, of occ2]
          keys_of_child [OF i, of occ1] keys_of_child [OF j, of occ2]
        show ?thesis
          unfolding Some b1 b2 common_entry_result_def by auto
      next
        case None
        have "keys_of n1 \<inter> keys_of n2 = {}"
        proof (rule ccontr)
          assume "keys_of n1 \<inter> keys_of n2 \<noteq> {}"
          then obtain k where k: "k \<in> keys_of n1" "k \<in> keys_of n2" by blast
          let ?c = "get_hash_chunk (hf k) d"
          from k key_in_branch_child [OF wf1 [unfolded b1], of k]
            key_in_branch_child [OF wf2 [unfolded b2], of k] b1 b2
          have in1: "bit occ1 ?c" "k \<in> keys_of (cs1 ! (num_set_until occ1 ?c - 1))"
            and in2: "bit occ2 ?c" "k \<in> keys_of (cs2 ! (num_set_until occ2 ?c - 1))"
            by simp_all
          then have c: "?c \<in> set ?ps" by (simp add: match_positions_set bit_simps)
          with r(2) None have "?f ?c = Some None" by simp
          with visit [OF c] have "common_entry_result (cs1 ! (num_set_until occ1 ?c - 1))
              (cs2 ! (num_set_until occ2 ?c - 1)) None"
            by simp
          with in1(2) in2(2) show False by (auto simp: common_entry_result_def)
        qed
        with None show ?thesis by (simp add: common_entry_result_def)
      qed
      with r(1) b1 b2 False show ?thesis
        by (subst unf) simp
    qed
  qed
qed


lemma contains_keys_of:
  assumes "well_formed hf 0 (root t)"
  shows "contains hf t k = Some (k \<in> keys_of (root t))"
  using find_recurse_correct [OF assms refl, of k] by (auto simp: contains_def)

text \<open>
  On well-formed trees \<open>find_common\<close> returns some entry whose key both trees
  contain if and only if they share a key, and the entry is a stored entry of one of them.
\<close>

lemma find_common_well_formed:
  assumes "well_formed hf 0 (root A)" and "well_formed hf 0 (root B)"
  shows "\<exists>r. find_common hf A B = Some r \<and>
           (r \<noteq> None \<longleftrightarrow> (\<exists>k. contains hf A k = Some True \<and> contains hf B k = Some True)) \<and>
           (\<forall>e. r = Some e \<longrightarrow>
              e \<in> set (entries_of (root A)) \<union> set (entries_of (root B)) \<and>
              contains hf A (fst e) = Some True \<and> contains hf B (fst e) = Some True)"
proof -
  from find_common_recurse_correct [OF assms] obtain r where
    r: "find_common hf A B = Some r" "common_entry_result (root A) (root B) r"
    by (auto simp: find_common_def)
  note c = contains_keys_of [OF assms(1)] contains_keys_of [OF assms(2)]
  show ?thesis
  proof (cases r)
    case None
    with r show ?thesis by (auto simp: c common_entry_result_def)
  next
    case (Some e)
    with r show ?thesis by (auto simp: c common_entry_result_def)
  qed
qed

section \<open>Claims about common entries\<close>

text \<open>
  Claim C6: for all trees \<open>A\<close> and \<open>B\<close>, \<open>find_common\<close> returns some entry
  whose key is present in both trees if and only if the trees share at least one key, and
  returns absent when they share none.

  The code does not do this on every tree that the operations build. With the identity
  as hash, tree \<open>A\<close> is built from the empty tree by inserting thirty 64-bit keys whose
  chunks 0 and 1 are 5 and 0 (the first of them is the key 5) and then the key 453, whose
  chunks 0 and 1 are 5 and 7: the full leaf is pushed one level down with the occupation
  mask of position 0, and the burst at position 1 places the thirty keys by that mask, in
  the child of chunk 5. Tree \<open>B\<close> is built in the same way with the key 123333 last,
  and tree \<open>C\<close> by inserting the key 5 alone. The key 5 is stored in all three trees;
  \<open>contains\<close> finds it in \<open>C\<close> and not in \<open>A\<close> and \<open>B\<close>. For \<open>A\<close> and
  \<open>C\<close>, \<open>find_common\<close> returns absent; for \<open>A\<close> and \<open>B\<close> it returns the
  entry of key 5.
\<close>

theorem C6_find_common_misses_shared_key:
  "Option.bind
     (insert_all (\<lambda>k. k) empty_tree (map (\<lambda>k. (k, ())) (stale_mask_keys @ [453])))
     (\<lambda>A. Option.bind
        (insert_all (\<lambda>k. k) empty_tree (map (\<lambda>k. (k, ())) (stale_mask_keys @ [123333])))
     (\<lambda>B. Option.bind (insert_all (\<lambda>k. k) empty_tree [(5, ())])
     (\<lambda>C. Some (find_common (\<lambda>k. k) A C, find_common (\<lambda>k. k) A B,
                 contains (\<lambda>k. k) A 5, contains (\<lambda>k. k) B 5, contains (\<lambda>k. k) C 5,
                 List.member (entries_of (root A)) (5, ()),
                 List.member (entries_of (root B)) (5, ()),
                 List.member (entries_of (root C)) (5, ())))))
   = Some (Some None, Some (Some (5, ())), Some False, Some False, Some True,
           True, True, True)"
  by code_simp

end
